theory Spec2Isabelle
  imports Complex_Main
begin

section \<open>The connection-status hook\<close>

text \<open>
  The development embeds the React hook \<^verbatim>\<open>useConnectionStatus\<close>. The hook keeps three
  pieces of state (\<^verbatim>\<open>connections\<close>, \<^verbatim>\<open>currentIndex\<close>, \<^verbatim>\<open>allComplete\<close>), runs two
  effects and hands \<^verbatim>\<open>retryConnection\<close> to its caller. Its asynchronous parts (the
  awaited connector promise, the \<^verbatim>\<open>setTimeout\<close> calls) are kept in the state as a list
  of pending tasks; an event of the environment (the caller retries, a promise settles,
  a timer fires, time passes, the parent renders again) makes one step.
\<close>

subsection \<open>Data\<close>

datatype connection_status = Pending | Connecting | Success | Error

record ConnectionState =
  platformId :: string
  status :: connection_status

type_synonym credentials = "(string \<times> string) list"

text \<open>
  The props of the hook. The connector is an opaque asynchronous function of the caller;
  the hook only tests whether it is there (\<^verbatim>\<open>if (connectPlatform)\<close>), so the field
  \<open>connectPlatform\<close> says whether one is supplied, and what a call returns comes with
  the event that settles it.
\<close>

record hook_props =
  platformIds :: "string list"
  autoStart :: bool
  connectPlatform :: bool

text \<open>What \<^verbatim>\<open>Promise<'success' | 'error'>\<close> can do once awaited.\<close>

datatype connect_result = ResultSuccess | ResultError

datatype settle = Resolves connect_result | Rejects

text \<open>
  Who awaits \<^verbatim>\<open>runConnection\<close>: the sequencer effect goes on after it (lines 85--90),
  \<^verbatim>\<open>retryConnection\<close> drops the promise.
\<close>

datatype caller = Sequencer | RetryGate

text \<open>
  Pending asynchronous work. Timers carry the time at which they are due.
  \<^item> \<open>Awaiting index platformId credentials who\<close>: \<^verbatim>\<open>await connectPlatform(platformId, credentials)\<close>
    inside \<^verbatim>\<open>runConnection(index, credentials)\<close>;
  \<^item> \<open>Sleeping index due who\<close>: the fallback \<^verbatim>\<open>setTimeout(resolve, 1500 + Math.random() * 1500)\<close>;
  \<^item> \<open>AdvanceTimer k due\<close>: \<^verbatim>\<open>setTimeout(() => setCurrentIndex(currentIndex + 1), 500)\<close>, with
    \<open>k\<close> the value \<^verbatim>\<open>currentIndex + 1\<close> of the closure;
  \<^item> \<open>CompleteTimer due\<close>: \<^verbatim>\<open>setTimeout(() => setAllComplete(true), 500)\<close>.
\<close>

datatype task =
    Awaiting int string "credentials option" caller
  | Sleeping int real caller
  | AdvanceTimer int real
  | CompleteTimer real

text \<open>
  The state of one hook instance: the props of the last render, the three \<^verbatim>\<open>useState\<close>
  cells, the pending tasks, the time, and a history of the status writes (time, index,
  status written) that no operation reads.
\<close>

record hook =
  props :: hook_props
  connections :: "ConnectionState list"
  currentIndex :: int
  allComplete :: bool
  tasks :: "task list"
  clock :: real
  history :: "(real \<times> int \<times> connection_status) list"

datatype failure = Thrown | NotEnabled

subsection \<open>Operations\<close>

text \<open>\<^verbatim>\<open>connections[index]\<close>: \<^verbatim>\<open>undefined\<close> outside the array.\<close>

definition element :: "'a list \<Rightarrow> int \<Rightarrow> 'a option" where
  "element xs index =
     (if 0 \<le> index \<and> index < int (length xs) then Some (xs ! nat index) else None)"

text \<open>\<^verbatim>\<open>prev.map((c, i) => i === index ? { ...c, status } : c)\<close>\<close>

definition setStatus :: "int \<Rightarrow> connection_status \<Rightarrow> ConnectionState list \<Rightarrow> ConnectionState list" where
  "setStatus index st prev =
     map (\<lambda>(i, c). if int i = index then c\<lparr>status := st\<rparr> else c) (enumerate 0 prev)"

definition setConnections :: "int \<Rightarrow> connection_status \<Rightarrow> hook \<Rightarrow> hook" where
  "setConnections index st s =
     s\<lparr>connections := setStatus index st (connections s),
       history := history s @ [(clock s, index, st)]\<rparr>"

definition setAllComplete :: "bool \<Rightarrow> hook \<Rightarrow> hook" where
  "setAllComplete b s = s\<lparr>allComplete := b\<rparr>"

text \<open>\<^verbatim>\<open>connections.filter((c) => c.status === 'success').length\<close>\<close>

definition successCount :: "hook \<Rightarrow> nat" where
  "successCount s = length (filter (\<lambda>c. status c = Success) (connections s))"

text \<open>The three \<^verbatim>\<open>useState\<close> initial values; nothing is pending and no time has passed.\<close>

definition useConnectionStatus :: "hook_props \<Rightarrow> hook" where
  "useConnectionStatus p =
     \<lparr>props = p,
      connections = map (\<lambda>id. \<lparr>platformId = id, status = Pending\<rparr>) (platformIds p),
      currentIndex = - 1,
      allComplete = False,
      tasks = [],
      clock = 0,
      history = []\<rparr>"

text \<open>Lines 85--90: what the sequencer effect does once \<^verbatim>\<open>runConnection\<close> has returned.\<close>

definition moveToNext :: "int \<Rightarrow> hook \<Rightarrow> hook" where
  "moveToNext i s =
     (if i < int (length (connections s)) - 1
      then s\<lparr>tasks := tasks s @ [AdvanceTimer (i + 1) (clock s + 500)]\<rparr>
      else s\<lparr>tasks := tasks s @ [CompleteTimer (clock s + 500)]\<rparr>)"

fun resume :: "caller \<Rightarrow> int \<Rightarrow> hook \<Rightarrow> hook" where
  "resume Sequencer i s = moveToNext i s"
| "resume RetryGate i s = s"

text \<open>
  JavaScript numbers are IEEE 754 binary64 values, and \<^verbatim>\<open>+\<close> and \<^verbatim>\<open>*\<close> round the exact
  result to the nearest one, ties to the even significand. \<open>binary64 x\<close> is that rounding
  of a real \<open>x\<close> of magnitude below \<open>2^1024\<close> (the hook computes nothing above \<open>3000\<close>):
  \<open>x\<close> is measured in units in the last place, \<open>2^(e - 52)\<close> where \<open>e\<close> is the exponent of
  \<open>x\<close> and at least \<open>-1022\<close>, and rounded to a whole number of them.
\<close>

definition roundEven :: "real \<Rightarrow> int" where
  "roundEven q =
     (let f = \<lfloor>q\<rfloor> in
      if q - of_int f < 1 / 2 then f
      else if 1 / 2 < q - of_int f then f + 1
      else if even f then f else f + 1)"

definition exponent64 :: "real \<Rightarrow> int" where
  "exponent64 x = max \<lfloor>log 2 \<bar>x\<bar>\<rfloor> (- 1022)"

definition ulp64 :: "real \<Rightarrow> real" where
  "ulp64 x = 2 powr (of_int (exponent64 x) - 52)"

definition binary64 :: "real \<Rightarrow> real" where
  "binary64 x =
     (if x = 0 then 0
      else sgn x * of_int (roundEven (\<bar>x\<bar> / ulp64 x)) * ulp64 x)"

text \<open>
  \<^verbatim>\<open>1500 + Math.random() * 1500\<close> and \<^verbatim>\<open>Math.random() > 0.1\<close>, on a draw \<open>u\<close>. The product
  is rounded, then the sum; the literal \<^verbatim>\<open>0.1\<close> is the binary64 number nearest to one tenth.
\<close>

definition fallbackDelay :: "real \<Rightarrow> real" where
  "fallbackDelay u = binary64 (1500 + binary64 (u * 1500))"

definition fallbackSuccess :: "real \<Rightarrow> bool" where
  "fallbackSuccess u = (u > binary64 (1 / 10))"

text \<open>
  \<^verbatim>\<open>runConnection\<close> up to its first \<^verbatim>\<open>await\<close> (lines 36--47 and 64--66). The guard
  \<^verbatim>\<open>if (!platformId) return\<close> returns for an index outside the array and for an empty
  platform id; the caller's continuation then runs at once.
\<close>

definition runConnection :: "int \<Rightarrow> credentials option \<Rightarrow> caller \<Rightarrow> real \<Rightarrow> hook \<Rightarrow> hook" where
  "runConnection index credentials who u s =
     (case element (connections s) index of
        None \<Rightarrow> resume who index s
      | Some c \<Rightarrow>
          if platformId c = [] then resume who index s
          else
            let s1 = setConnections index Connecting s in
            if connectPlatform (props s)
            then s1\<lparr>tasks := tasks s1 @ [Awaiting index (platformId c) credentials who]\<rparr>
            else s1\<lparr>tasks := tasks s1 @ [Sleeping index (clock s + fallbackDelay u) who]\<rparr>)"

text \<open>
  Lines 46--59, after the \<^verbatim>\<open>await\<close>. The \<^verbatim>\<open>try\<close> block raises when the connector
  rejects (or threw when it was called); the \<^verbatim>\<open>catch\<close> block writes \<^verbatim>\<open>'error'\<close>.
\<close>

fun statusOf :: "connect_result \<Rightarrow> connection_status" where
  "statusOf ResultSuccess = Success"
| "statusOf ResultError = Error"

fun tryConnect :: "int \<Rightarrow> settle \<Rightarrow> hook \<Rightarrow> failure + hook" where
  "tryConnect index (Resolves r) s = Inr (setConnections index (statusOf r) s)"
| "tryConnect index Rejects s = Inl Thrown"

definition connectSettled :: "int \<Rightarrow> settle \<Rightarrow> hook \<Rightarrow> failure + hook" where
  "connectSettled index out s =
     (case tryConnect index out s of
        Inr s' \<Rightarrow> Inr s'
      | Inl e \<Rightarrow> Inr (setConnections index Error s))"

text \<open>Lines 68--76, after the fallback timer.\<close>

definition fallbackDone :: "int \<Rightarrow> real \<Rightarrow> hook \<Rightarrow> hook" where
  "fallbackDone index u s =
     setConnections index (if fallbackSuccess u then Success else Error) s"

text \<open>The second effect (lines 80--95); it runs when \<^verbatim>\<open>currentIndex\<close> has changed.\<close>

definition sequencerEffect :: "real \<Rightarrow> hook \<Rightarrow> hook" where
  "sequencerEffect u s =
     (if currentIndex s \<ge> 0 \<and> currentIndex s < int (length (connections s))
      then runConnection (currentIndex s) None Sequencer u s
      else s)"

text \<open>A state setter that is given the current value changes nothing and runs no effect.\<close>

definition setCurrentIndex :: "int \<Rightarrow> real \<Rightarrow> hook \<Rightarrow> hook" where
  "setCurrentIndex k u s =
     (if k = currentIndex s then s else sequencerEffect u (s\<lparr>currentIndex := k\<rparr>))"

text \<open>The first effect (lines 26--30); it runs on mount and when \<^verbatim>\<open>autoStart\<close> has changed.\<close>

definition autoStartEffect :: "real \<Rightarrow> hook \<Rightarrow> hook" where
  "autoStartEffect u s =
     (if autoStart (props s) \<and> currentIndex s = - 1 \<and> length (connections s) > 0
      then setCurrentIndex 0 u s
      else s)"

definition retryConnection :: "int \<Rightarrow> credentials option \<Rightarrow> real \<Rightarrow> hook \<Rightarrow> hook" where
  "retryConnection index credentials u s = runConnection index credentials RetryGate u s"

text \<open>
  The first render followed by its effects. At that moment \<^verbatim>\<open>currentIndex\<close> is \<open>-1\<close>, so
  the second effect does nothing until the first one has set the cursor.
\<close>

definition mount :: "hook_props \<Rightarrow> real \<Rightarrow> hook" where
  "mount p u = autoStartEffect u (useConnectionStatus p)"

text \<open>
  A later render with props \<open>p\<close>. \<^verbatim>\<open>useState\<close> ignores its argument after the first
  render, so only the props change; the first effect runs again when \<^verbatim>\<open>autoStart\<close> differs.
\<close>

definition rerender :: "hook_props \<Rightarrow> real \<Rightarrow> hook \<Rightarrow> hook" where
  "rerender p u s =
     (if autoStart p \<noteq> autoStart (props s)
      then autoStartEffect u (s\<lparr>props := p\<rparr>)
      else s\<lparr>props := p\<rparr>)"

subsection \<open>Events and steps\<close>

text \<open>
  \<^item> \<open>Retry index credentials u\<close>: the caller invokes \<^verbatim>\<open>retryConnection(index, credentials)\<close>;
  \<^item> \<open>Settle n out\<close>: the connector promise awaited by the \<open>n\<close>-th pending task settles;
  \<^item> \<open>Fire n u\<close>: the timer of the \<open>n\<close>-th pending task fires, which it does not do before
    it is due;
  \<^item> \<open>Advance d\<close>: time \<open>d\<close> passes;
  \<^item> \<open>Rerender p u\<close>: the parent renders the hook with props \<open>p\<close>.
  The real \<open>u\<close> is the value of the one \<^verbatim>\<open>Math.random()\<close> call the step may make.
\<close>

datatype event =
    Retry int "credentials option" real
  | Settle nat settle
  | Fire nat real
  | Advance real
  | Rerender hook_props real

definition dropTask :: "nat \<Rightarrow> hook \<Rightarrow> hook" where
  "dropTask n s = s\<lparr>tasks := take n (tasks s) @ drop (Suc n) (tasks s)\<rparr>"

definition taskAt :: "hook \<Rightarrow> nat \<Rightarrow> task option" where
  "taskAt s n = (if n < length (tasks s) then Some (tasks s ! n) else None)"

fun settleTask :: "task \<Rightarrow> settle \<Rightarrow> hook \<Rightarrow> failure + hook" where
  "settleTask (Awaiting index pid credentials who) out s =
     (case connectSettled index out s of
        Inl e \<Rightarrow> Inl e
      | Inr s' \<Rightarrow> Inr (resume who index s'))"
| "settleTask _ out s = Inl NotEnabled"

fun fireTask :: "task \<Rightarrow> real \<Rightarrow> hook \<Rightarrow> failure + hook" where
  "fireTask (Sleeping index due who) u s =
     (if due \<le> clock s then Inr (resume who index (fallbackDone index u s)) else Inl NotEnabled)"
| "fireTask (AdvanceTimer k due) u s =
     (if due \<le> clock s then Inr (setCurrentIndex k u s) else Inl NotEnabled)"
| "fireTask (CompleteTimer due) u s =
     (if due \<le> clock s then Inr (setAllComplete True s) else Inl NotEnabled)"
| "fireTask (Awaiting index pid credentials who) u s = Inl NotEnabled"

fun step :: "event \<Rightarrow> hook \<Rightarrow> failure + hook" where
  "step (Retry index credentials u) s = Inr (retryConnection index credentials u s)"
| "step (Settle n out) s =
     (case taskAt s n of
        None \<Rightarrow> Inl NotEnabled
      | Some t \<Rightarrow> settleTask t out (dropTask n s))"
| "step (Fire n u) s =
     (case taskAt s n of
        None \<Rightarrow> Inl NotEnabled
      | Some t \<Rightarrow> fireTask t u (dropTask n s))"
| "step (Advance d) s = (if 0 \<le> d then Inr (s\<lparr>clock := clock s + d\<rparr>) else Inl NotEnabled)"
| "step (Rerender p u) s = Inr (rerender p u s)"

fun exec :: "event list \<Rightarrow> hook \<Rightarrow> failure + hook" where
  "exec [] s = Inr s"
| "exec (e # es) s = (case step e s of Inl f \<Rightarrow> Inl f | Inr s' \<Rightarrow> exec es s')"

subsection \<open>Discarded and replaced hooks\<close>

text \<open>
  The parent can also unmount the hook, or mount a new instance in its place (a render
  under another \<^verbatim>\<open>key\<close>). The effects return no cleanup function, so the promises and
  timers of an unmounted instance stay pending and their callbacks run the same code;
  the framework ignores the state setters of an unmounted component and runs no effect
  for it. \<open>lateStep\<close> is \<open>step\<close> for such an instance: every \<^verbatim>\<open>setConnections\<close>,
  \<^verbatim>\<open>setCurrentIndex\<close> and \<^verbatim>\<open>setAllComplete\<close> is dropped, the connector calls and the
  \<^verbatim>\<open>setTimeout\<close>s are still made, and it is not rendered any more.
\<close>

definition lateRunConnection :: "int \<Rightarrow> credentials option \<Rightarrow> caller \<Rightarrow> real \<Rightarrow> hook \<Rightarrow> hook" where
  "lateRunConnection index credentials who u s =
     (case element (connections s) index of
        None \<Rightarrow> resume who index s
      | Some c \<Rightarrow>
          if platformId c = [] then resume who index s
          else if connectPlatform (props s)
            then s\<lparr>tasks := tasks s @ [Awaiting index (platformId c) credentials who]\<rparr>
            else s\<lparr>tasks := tasks s @ [Sleeping index (clock s + fallbackDelay u) who]\<rparr>)"

fun lateSettleTask :: "task \<Rightarrow> hook \<Rightarrow> failure + hook" where
  "lateSettleTask (Awaiting index pid credentials who) s = Inr (resume who index s)"
| "lateSettleTask _ s = Inl NotEnabled"

fun lateFireTask :: "task \<Rightarrow> hook \<Rightarrow> failure + hook" where
  "lateFireTask (Sleeping index due who) s =
     (if due \<le> clock s then Inr (resume who index s) else Inl NotEnabled)"
| "lateFireTask (AdvanceTimer k due) s = (if due \<le> clock s then Inr s else Inl NotEnabled)"
| "lateFireTask (CompleteTimer due) s = (if due \<le> clock s then Inr s else Inl NotEnabled)"
| "lateFireTask (Awaiting index pid credentials who) s = Inl NotEnabled"

fun lateStep :: "event \<Rightarrow> hook \<Rightarrow> failure + hook" where
  "lateStep (Retry index credentials u) s =
     Inr (lateRunConnection index credentials RetryGate u s)"
| "lateStep (Settle n out) s =
     (case taskAt s n of
        None \<Rightarrow> Inl NotEnabled
      | Some t \<Rightarrow> lateSettleTask t (dropTask n s))"
| "lateStep (Fire n u) s =
     (case taskAt s n of
        None \<Rightarrow> Inl NotEnabled
      | Some t \<Rightarrow> lateFireTask t (dropTask n s))"
| "lateStep (Advance d) s = (if 0 \<le> d then Inr (s\<lparr>clock := clock s + d\<rparr>) else Inl NotEnabled)"
| "lateStep (Rerender p u) s = Inl NotEnabled"

text \<open>
  A world is the instance on screen, if there is one, and the instances discarded so far.
  \<^item> \<open>Live e\<close>: the event \<open>e\<close> on the current instance;
  \<^item> \<open>Late i e\<close>: the event \<open>e\<close> on the \<open>i\<close>-th discarded instance;
  \<^item> \<open>Pass d\<close>: time \<open>d\<close> passes, for every instance;
  \<^item> \<open>Discard\<close>: the current instance is unmounted;
  \<^item> \<open>Replace p u\<close>: a new instance is mounted with props \<open>p\<close>, in place of the current
    one if there is one.
\<close>

record world =
  current :: "hook option"
  discarded :: "hook list"

datatype world_event =
    Live event
  | Late nat event
  | Pass real
  | Discard
  | Replace hook_props real

fun timeless :: "event \<Rightarrow> bool" where
  "timeless (Advance d) = False"
| "timeless e = True"

definition tick :: "real \<Rightarrow> hook \<Rightarrow> hook" where
  "tick d s = s\<lparr>clock := clock s + d\<rparr>"

fun worldStep :: "world_event \<Rightarrow> world \<Rightarrow> failure + world" where
  "worldStep (Live e) w =
     (case current w of
        None \<Rightarrow> Inl NotEnabled
      | Some s \<Rightarrow>
          if timeless e
          then (case step e s of Inl f \<Rightarrow> Inl f | Inr s' \<Rightarrow> Inr (w\<lparr>current := Some s'\<rparr>))
          else Inl NotEnabled)"
| "worldStep (Late i e) w =
     (if i < length (discarded w) \<and> timeless e
      then (case lateStep e (discarded w ! i) of
              Inl f \<Rightarrow> Inl f
            | Inr s' \<Rightarrow> Inr (w\<lparr>discarded := (discarded w)[i := s']\<rparr>))
      else Inl NotEnabled)"
| "worldStep (Pass d) w =
     (if 0 \<le> d
      then Inr \<lparr>current = map_option (tick d) (current w),
               discarded = map (tick d) (discarded w)\<rparr>
      else Inl NotEnabled)"
| "worldStep Discard w =
     (case current w of
        None \<Rightarrow> Inl NotEnabled
      | Some s \<Rightarrow> Inr \<lparr>current = None, discarded = discarded w @ [s]\<rparr>)"
| "worldStep (Replace p u) w =
     Inr \<lparr>current = Some (mount p u),
         discarded = discarded w @ (case current w of None \<Rightarrow> [] | Some s \<Rightarrow> [s])\<rparr>"

fun worldExec :: "world_event list \<Rightarrow> world \<Rightarrow> failure + world" where
  "worldExec [] w = Inr w"
| "worldExec (e # es) w = (case worldStep e w of Inl f \<Rightarrow> Inl f | Inr w' \<Rightarrow> worldExec es w')"

subsection \<open>Derived notions and example inputs\<close>

text \<open>The platform ids of the ledger, in ledger order.\<close>

definition ledgerIds :: "hook \<Rightarrow> string list" where
  "ledgerIds s = map platformId (connections s)"

text \<open>
  Two platforms with a connector supplied, and the state that run reaches
  when the first attempt succeeds, the second one fails and is then retried.
\<close>

definition pAB :: hook_props where
  "pAB = \<lparr>platformIds = [''A'', ''B''], autoStart = True, connectPlatform = True\<rparr>"

definition finalAB :: hook where
  "finalAB =
     \<lparr>props = pAB,
      connections =
        [\<lparr>platformId = ''A'', status = Success\<rparr>,
         \<lparr>platformId = ''B'', status = Connecting\<rparr>],
      currentIndex = 1, allComplete = False,
      tasks = [CompleteTimer 1000, Awaiting 1 ''B'' None RetryGate],
      clock = 500,
      history =
        [(0, 0, Connecting), (0, 0, Success), (500, 1, Connecting),
         (500, 1, Error), (500, 1, Connecting)]\<rparr>"


text \<open>
  What a retry of index \<open>j\<close> may change between two states: nothing but the status of
  record \<open>j\<close>.
\<close>

definition retryFrame :: "int \<Rightarrow> hook \<Rightarrow> hook \<Rightarrow> bool" where
  "retryFrame j s s' \<longleftrightarrow>
     currentIndex s' = currentIndex s \<and> allComplete s' = allComplete s \<and>
     map platformId (connections s') = map platformId (connections s) \<and>
     (\<forall>i < length (connections s). int i \<noteq> j \<longrightarrow>
        status (connections s' ! i) = status (connections s ! i))"

text \<open>
  Three platforms; the first and third attempts succeed and the second fails, the run is
  complete; then the second is retried with credentials.
\<close>

definition pABC :: hook_props where
  "pABC = \<lparr>platformIds = [''A'', ''B'', ''C''], autoStart = True, connectPlatform = True\<rparr>"

definition settledABC :: hook where
  "settledABC =
     \<lparr>props = pABC,
      connections =
        [\<lparr>platformId = ''A'', status = Success\<rparr>,
         \<lparr>platformId = ''B'', status = Error\<rparr>,
         \<lparr>platformId = ''C'', status = Success\<rparr>],
      currentIndex = 2, allComplete = True, tasks = [], clock = 1500,
      history =
        [(0, 0, Connecting), (0, 0, Success), (500, 1, Connecting), (500, 1, Error),
         (1000, 2, Connecting), (1000, 2, Success)]\<rparr>"

definition credsB :: credentials where
  "credsB = [(''apiKey'', ''k'')]"

definition retriedABC :: hook where
  "retriedABC = retryConnection 1 (Some credsB) 0 settledABC"

text \<open>
  The sequencer's discipline, for runs without retries.
  \<^item> \<open>finishedBy s k t\<close>: every attempt of record \<open>k\<close> in the history was followed by
    its outcome, written at least 500 before time \<open>t\<close>.
  \<^item> \<open>ledgerInv\<close>: the cursor is \<open>-1\<close> or in the ledger; only the record under the
    cursor can be connecting; the records after the cursor are pending, and so are the
    records without a platform id.
  \<^item> \<open>tasksInv\<close>: at most one task is pending, and it belongs to the cursor; a timer
    that will move the cursor is due 500 after the outcome of the cursor's record.
  \<^item> \<open>historyInv\<close>: statuses were written only up to the cursor and up to now; the
    records before the cursor are finished; when an attempt was started, every earlier
    record was finished.
\<close>

fun isRetry :: "event \<Rightarrow> bool" where
  "isRetry (Retry index credentials u) = True"
| "isRetry e = False"

definition terminal :: "connection_status \<Rightarrow> bool" where
  "terminal st \<longleftrightarrow> st = Success \<or> st = Error"

definition finishedBy :: "hook \<Rightarrow> int \<Rightarrow> real \<Rightarrow> bool" where
  "finishedBy s k t \<longleftrightarrow>
     (\<forall>t'. (t', k, Connecting) \<in> set (history s) \<longrightarrow>
        (\<exists>t0 st. terminal st \<and> (t0, k, st) \<in> set (history s) \<and> t' \<le> t0 \<and> t0 + 500 \<le> t))"

fun taskInv :: "hook \<Rightarrow> task \<Rightarrow> bool" where
  "taskInv s (Awaiting i pid credentials who) =
     (i = currentIndex s \<and> ledgerIds s ! nat i \<noteq> [])"
| "taskInv s (Sleeping i due who) =
     (i = currentIndex s \<and> ledgerIds s ! nat i \<noteq> [])"
| "taskInv s (AdvanceTimer k due) =
     (k = currentIndex s + 1 \<and> k < int (length (connections s)) \<and>
      status (connections s ! nat (currentIndex s)) \<noteq> Connecting \<and>
      finishedBy s (currentIndex s) due)"
| "taskInv s (CompleteTimer due) =
     (status (connections s ! nat (currentIndex s)) \<noteq> Connecting)"

definition ledgerInv :: "hook \<Rightarrow> bool" where
  "ledgerInv s \<longleftrightarrow>
     (currentIndex s = - 1 \<or> 0 \<le> currentIndex s \<and> currentIndex s < int (length (connections s))) \<and>
     (\<forall>i<length (connections s). status (connections s ! i) = Connecting \<longrightarrow> int i = currentIndex s) \<and>
     (\<forall>i<length (connections s). currentIndex s < int i \<longrightarrow> status (connections s ! i) = Pending) \<and>
     (\<forall>i<length (connections s). ledgerIds s ! i = [] \<longrightarrow> status (connections s ! i) = Pending)"

definition historyInv :: "hook \<Rightarrow> bool" where
  "historyInv s \<longleftrightarrow>
     (\<forall>t k st. (t, k, st) \<in> set (history s) \<longrightarrow> 0 \<le> k \<and> k \<le> currentIndex s \<and> t \<le> clock s) \<and>
     (\<forall>k. k < currentIndex s \<longrightarrow> finishedBy s k (clock s)) \<and>
     (\<forall>t k k'. (t, k, Connecting) \<in> set (history s) \<and> k' < k \<longrightarrow> finishedBy s k' t)"

definition tasksInv :: "hook \<Rightarrow> bool" where
  "tasksInv s \<longleftrightarrow>
     tasks s = [] \<or> (\<exists>t. tasks s = [t] \<and> 0 \<le> currentIndex s \<and> taskInv s t)"

definition seqInv :: "hook \<Rightarrow> bool" where
  "seqInv s \<longleftrightarrow> ledgerInv s \<and> tasksInv s \<and> historyInv s"

text \<open>Two platforms, the first with an empty id, and the state 500 after mounting.\<close>

definition pSkip :: hook_props where
  "pSkip = \<lparr>platformIds = ['''', ''B''], autoStart = True, connectPlatform = True\<rparr>"

definition skipped :: hook where
  "skipped =
     \<lparr>props = pSkip,
      connections =
        [\<lparr>platformId = '''', status = Pending\<rparr>,
         \<lparr>platformId = ''B'', status = Connecting\<rparr>],
      currentIndex = 1, allComplete = False,
      tasks = [Awaiting 1 ''B'' None Sequencer], clock = 500,
      history = [(500, 1, Connecting)]\<rparr>"


text \<open>What stays true of a hook mounted with no platform id at all.\<close>

definition emptyInv :: "hook \<Rightarrow> bool" where
  "emptyInv s \<longleftrightarrow>
     connections s = [] \<and> tasks s = [] \<and> currentIndex s = - 1 \<and> \<not> allComplete s \<and>
     history s = []"

definition pEmpty :: hook_props where
  "pEmpty = \<lparr>platformIds = [], autoStart = True, connectPlatform = True\<rparr>"

text \<open>
  A hook whose \<^verbatim>\<open>autoStart\<close> is false. \<open>retryTask\<close>: the task was started by
  \<^verbatim>\<open>retryConnection\<close>; \<open>keepsAutoStartOff\<close>: the event does not render the hook with
  \<^verbatim>\<open>autoStart\<close> true; \<open>offInv\<close>: the sequencer has not started; \<open>untouched\<close>: nor has
  anything else.
\<close>

fun retryTask :: "task \<Rightarrow> bool" where
  "retryTask (Awaiting i pid credentials who) = (who = RetryGate)"
| "retryTask (Sleeping i due who) = (who = RetryGate)"
| "retryTask (AdvanceTimer k due) = False"
| "retryTask (CompleteTimer due) = False"

fun keepsAutoStartOff :: "event \<Rightarrow> bool" where
  "keepsAutoStartOff (Rerender p u) = (\<not> autoStart p)"
| "keepsAutoStartOff e = True"

definition offInv :: "hook \<Rightarrow> bool" where
  "offInv s \<longleftrightarrow>
     \<not> autoStart (props s) \<and> currentIndex s = - 1 \<and> \<not> allComplete s \<and>
     list_all retryTask (tasks s)"

definition untouched :: "hook \<Rightarrow> bool" where
  "untouched s \<longleftrightarrow>
     offInv s \<and> tasks s = [] \<and> history s = [] \<and>
     list_all (\<lambda>c. status c = Pending) (connections s)"

definition pOff :: hook_props where
  "pOff = \<lparr>platformIds = [''A'', ''B''], autoStart = False, connectPlatform = True\<rparr>"

definition retriedOff :: hook where
  "retriedOff =
     \<lparr>props = pOff,
      connections =
        [\<lparr>platformId = ''A'', status = Success\<rparr>,
         \<lparr>platformId = ''B'', status = Pending\<rparr>],
      currentIndex = - 1, allComplete = False, tasks = [], clock = 5000,
      history = [(5000, 0, Connecting), (5000, 0, Success)]\<rparr>"

definition idleOff :: hook where
  "idleOff =
     \<lparr>props = pOff\<lparr>connectPlatform := False\<rparr>,
      connections =
        [\<lparr>platformId = ''A'', status = Pending\<rparr>,
         \<lparr>platformId = ''B'', status = Pending\<rparr>],
      currentIndex = - 1, allComplete = False, tasks = [], clock = 5000,
      history = []\<rparr>"

text \<open>
  One platform and no connector: the hook about to start its attempt, and the state
  after the fallback timer has fired with a draw above \<open>1/10\<close>.
\<close>

definition pMock :: hook_props where
  "pMock = \<lparr>platformIds = [''A''], autoStart = True, connectPlatform = False\<rparr>"

definition startedMock :: hook where
  "startedMock = (useConnectionStatus pMock)\<lparr>currentIndex := 0\<rparr>"

definition doneMock :: hook where
  "doneMock =
     \<lparr>props = pMock,
      connections = [\<lparr>platformId = ''A'', status = Success\<rparr>],
      currentIndex = 0, allComplete = False,
      tasks = [CompleteTimer 2750], clock = 2250,
      history = [(0, 0, Connecting), (2250, 0, Success)]\<rparr>"

text \<open>A draw just below \<open>1\<close>: the largest multiple of \<open>2^-52\<close> in \<open>[0, 1)\<close>.\<close>

definition maxDraw :: real where
  "maxDraw = 1 - 1 / 2 ^ 52"

text \<open>
  Other props for a hook mounted with \<open>pAB\<close>, and the state after the connector call
  of the first run resolved under them.
\<close>

definition pCD :: hook_props where
  "pCD = \<lparr>platformIds = [''C'', ''D''], autoStart = True, connectPlatform = True\<rparr>"

definition replacedAB :: hook where
  "replacedAB =
     \<lparr>props = pCD,
      connections =
        [\<lparr>platformId = ''A'', status = Success\<rparr>,
         \<lparr>platformId = ''B'', status = Pending\<rparr>],
      currentIndex = 0, allComplete = False,
      tasks = [AdvanceTimer 1 500], clock = 0,
      history = [(0, 0, Connecting), (0, 0, Success)]\<rparr>"

text \<open>
  The same hook when both attempts have succeeded and its completion timer is due.
\<close>

definition timerAB :: hook where
  "timerAB =
     \<lparr>props = pAB,
      connections =
        [\<lparr>platformId = ''A'', status = Success\<rparr>,
         \<lparr>platformId = ''B'', status = Success\<rparr>],
      currentIndex = 1, allComplete = False,
      tasks = [CompleteTimer 1000], clock = 1000,
      history =
        [(0, 0, Connecting), (0, 0, Success), (500, 1, Connecting), (500, 1, Success)]\<rparr>"

text \<open>
  What a late event can change in a hook: the three \<^verbatim>\<open>useState\<close> cells and the history
  of the status writes. The time at which a pending task is due, if it is a timer.
\<close>

definition ledgerCells ::
  "hook \<Rightarrow> ConnectionState list \<times> int \<times> bool \<times> (real \<times> int \<times> connection_status) list" where
  "ledgerCells s = (connections s, currentIndex s, allComplete s, history s)"

fun dueAt :: "task \<Rightarrow> real option" where
  "dueAt (Awaiting index pid credentials who) = None"
| "dueAt (Sleeping index due who) = Some due"
| "dueAt (AdvanceTimer k due) = Some due"
| "dueAt (CompleteTimer due) = Some due"

text \<open>
  The hook mounted with \<open>pAB\<close> is replaced by a new instance with \<open>pCD\<close> while its first
  attempt is in flight; then the connector call of the replaced instance resolves and
  the timer it sets fires.
\<close>

definition mountedAB :: world where
  "mountedAB = \<lparr>current = Some (mount pAB 0), discarded = []\<rparr>"

definition supersededAB :: world where
  "supersededAB = \<lparr>current = Some (mount pCD 0), discarded = [mount pAB 0]\<rparr>"

definition lateAB :: world where
  "lateAB =
     \<lparr>current = Some
        \<lparr>props = pCD,
         connections =
           [\<lparr>platformId = ''C'', status = Connecting\<rparr>,
            \<lparr>platformId = ''D'', status = Pending\<rparr>],
         currentIndex = 0, allComplete = False,
         tasks = [Awaiting 0 ''C'' None Sequencer], clock = 600,
         history = [(0, 0, Connecting)]\<rparr>,
      discarded =
        [\<lparr>props = pAB,
          connections =
            [\<lparr>platformId = ''A'', status = Connecting\<rparr>,
             \<lparr>platformId = ''B'', status = Pending\<rparr>],
          currentIndex = 0, allComplete = False,
          tasks = [], clock = 600,
          history = [(0, 0, Connecting)]\<rparr>]\<rparr>"

section \<open>Properties\<close>

lemmas model_defs = mount_def useConnectionStatus_def autoStartEffect_def setCurrentIndex_def
  sequencerEffect_def runConnection_def element_def setConnections_def setStatus_def
  moveToNext_def connectSettled_def fallbackDone_def
  retryConnection_def rerender_def dropTask_def taskAt_def setAllComplete_def Let_def


subsection \<open>Status writes\<close>

lemma length_setStatus: "length (setStatus index st prev) = length prev"
  by (simp add: setStatus_def)

lemma nth_setStatus:
  "i < length prev \<Longrightarrow>
   setStatus index st prev ! i = (if int i = index then (prev ! i)\<lparr>status := st\<rparr> else prev ! i)"
  by (simp add: setStatus_def nth_enumerate_eq)

lemma platformId_setStatus: "map platformId (setStatus index st prev) = map platformId prev"
  by (rule nth_equalityI) (simp_all add: length_setStatus nth_setStatus)

subsection \<open>The initial state\<close>

text \<open>
  C1. Right after construction the ledger has one record per platform id, in the order
  of the input, each of them pending; \<open>allComplete\<close> is false and \<open>successCount\<close> is 0.
  This holds for every id list, the non-empty ones among them.
\<close>

theorem initial_ledger:
  "connections (useConnectionStatus p) =
     map (\<lambda>id. \<lparr>platformId = id, status = Pending\<rparr>) (platformIds p)
   \<and> map platformId (connections (useConnectionStatus p)) = platformIds p
   \<and> list_all (\<lambda>c. status c = Pending) (connections (useConnectionStatus p))
   \<and> allComplete (useConnectionStatus p) = False
   \<and> successCount (useConnectionStatus p) = 0"
  by (simp add: useConnectionStatus_def successCount_def list_all_iff comp_def)

subsection \<open>Platform ids are never written\<close>

lemma ids_update:
  "ledgerIds (s\<lparr>tasks := ts\<rparr>) = ledgerIds s"
  "ledgerIds (s\<lparr>props := p\<rparr>) = ledgerIds s"
  "ledgerIds (s\<lparr>currentIndex := k\<rparr>) = ledgerIds s"
  "ledgerIds (s\<lparr>allComplete := b\<rparr>) = ledgerIds s"
  "ledgerIds (s\<lparr>clock := t\<rparr>) = ledgerIds s"
  by (simp_all add: ledgerIds_def)

lemma ids_setConnections: "ledgerIds (setConnections index st s) = ledgerIds s"
  by (simp add: ledgerIds_def setConnections_def platformId_setStatus)

lemma ids_resume: "ledgerIds (resume who i s) = ledgerIds s"
  by (cases who) (simp_all add: ids_update moveToNext_def)

lemma ids_runConnection: "ledgerIds (runConnection index credentials who u s) = ledgerIds s"
  by (simp add: runConnection_def ids_resume Let_def ids_setConnections ids_update
      split: option.splits)

lemma ids_setCurrentIndex: "ledgerIds (setCurrentIndex k u s) = ledgerIds s"
  by (simp add: setCurrentIndex_def sequencerEffect_def ids_runConnection ids_update)

lemma ids_autoStartEffect: "ledgerIds (autoStartEffect u s) = ledgerIds s"
  by (simp add: autoStartEffect_def ids_setCurrentIndex)

lemma ids_rerender: "ledgerIds (rerender p u s) = ledgerIds s"
  by (simp add: rerender_def ids_autoStartEffect ids_update)

lemma ids_dropTask: "ledgerIds (dropTask n s) = ledgerIds s"
  by (simp add: dropTask_def ids_update)

lemma ids_connectSettled: "connectSettled index out s = Inr s' \<Longrightarrow> ledgerIds s' = ledgerIds s"
  by (cases out) (auto simp: connectSettled_def ids_setConnections)

lemma ids_settleTask: "settleTask t out s = Inr s' \<Longrightarrow> ledgerIds s' = ledgerIds s"
  by (cases t) (auto simp: ids_resume split: sum.splits dest: ids_connectSettled)

lemma ids_fireTask: "fireTask t u s = Inr s' \<Longrightarrow> ledgerIds s' = ledgerIds s"
  by (cases t)
     (auto simp: ids_resume fallbackDone_def ids_setConnections ids_setCurrentIndex
        setAllComplete_def ids_update split: if_splits)

lemma ids_step: "step e s = Inr s' \<Longrightarrow> ledgerIds s' = ledgerIds s"
proof (cases e)
  case (Retry index credentials u)
  then show "step e s = Inr s' \<Longrightarrow> ?thesis"
    by (auto simp: retryConnection_def ids_runConnection)
next
  case (Settle n out)
  then show "step e s = Inr s' \<Longrightarrow> ?thesis"
    by (auto split: option.splits dest!: ids_settleTask simp: ids_dropTask)
next
  case (Fire n u)
  then show "step e s = Inr s' \<Longrightarrow> ?thesis"
    by (auto split: option.splits dest!: ids_fireTask simp: ids_dropTask)
next
  case (Advance d)
  then show "step e s = Inr s' \<Longrightarrow> ?thesis"
    by (auto simp: ids_update split: if_splits)
next
  case (Rerender p u)
  then show "step e s = Inr s' \<Longrightarrow> ?thesis"
    by (auto simp: ids_rerender)
qed

lemma ids_exec: "exec es s = Inr s' \<Longrightarrow> ledgerIds s' = ledgerIds s"
proof (induction es arbitrary: s)
  case Nil
  then show ?case by simp
next
  case (Cons e es)
  then show ?case by (auto split: sum.splits dest: ids_step)
qed

lemma ids_mount: "ledgerIds (mount p u) = platformIds p"
  by (simp add: mount_def ids_autoStartEffect) (simp add: ledgerIds_def useConnectionStatus_def comp_def)

subsection \<open>The shape of the ledger\<close>

text \<open>
  C7. Every operation keeps the shape of the ledger: whatever events happen (sequencer
  steps, retries, completion, renders), the records are as many as before, in the same
  order and with the same platform ids, which are the ids the hook was mounted with.
  A record has no other field than its status, so only statuses change.
\<close>

theorem ledger_shape_preserved:
  assumes "exec es s = Inr s'"
  shows "map platformId (connections s') = map platformId (connections s)
       \<and> length (connections s') = length (connections s)
       \<and> (\<forall>p u. s = mount p u \<longrightarrow> map platformId (connections s') = platformIds p)"
proof -
  have ids: "ledgerIds s' = ledgerIds s"
    using assms by (rule ids_exec)
  then have "length (ledgerIds s') = length (ledgerIds s)"
    by simp
  then have len: "length (connections s') = length (connections s)"
    by (simp add: ledgerIds_def)
  from ids have "\<forall>p u. s = mount p u \<longrightarrow> ledgerIds s' = platformIds p"
    by (simp add: ids_mount)
  with ids len show ?thesis
    by (simp add: ledgerIds_def)
qed

theorem ledger_shape_preserved_witness:
  "exec [Settle 0 (Resolves ResultSuccess), Advance 500, Fire 0 0, Settle 0 Rejects,
         Retry 1 None 0] (mount pAB 0) = Inr finalAB
   \<and> map platformId (connections finalAB) = [''A'', ''B'']
   \<and> length (connections finalAB) = length (connections (mount pAB 0))
   \<and> map platformId (connections finalAB) = platformIds pAB"
proof -
  have run: "exec [Settle 0 (Resolves ResultSuccess), Advance 500, Fire 0 0, Settle 0 Rejects,
         Retry 1 None 0] (mount pAB 0) = Inr finalAB"
    by (simp add: model_defs pAB_def finalAB_def)
  have "map platformId (connections finalAB) = [''A'', ''B'']"
    by (simp add: finalAB_def)
  with ledger_shape_preserved [OF run] run show ?thesis
    by blast
qed

subsection \<open>Retry outside the ledger\<close>

text \<open>
  C4. A retry with an index outside the ledger is a no-op: the step succeeds and returns
  the very same state, so the ledger, \<open>currentIndex\<close>, \<open>allComplete\<close> and
  \<open>successCount\<close> are unchanged and nothing is raised.
\<close>

theorem retry_out_of_range:
  assumes "index < 0 \<or> int (length (connections s)) \<le> index"
  shows "step (Retry index credentials u) s = Inr s
       \<and> connections (retryConnection index credentials u s) = connections s
       \<and> currentIndex (retryConnection index credentials u s) = currentIndex s
       \<and> allComplete (retryConnection index credentials u s) = allComplete s
       \<and> successCount (retryConnection index credentials u s) = successCount s"
proof -
  from assms have "element (connections s) index = None"
    by (auto simp: element_def)
  then have "retryConnection index credentials u s = s"
    by (simp add: retryConnection_def runConnection_def)
  then show ?thesis
    by simp
qed

theorem retry_out_of_range_witness:
  "((2::int) < 0 \<or> int (length (connections (mount pAB 0))) \<le> 2)
   \<and> step (Retry 2 None 0) (mount pAB 0) = Inr (mount pAB 0)
   \<and> step (Retry (- 1) None 0) (mount pAB 0) = Inr (mount pAB 0)"
proof -
  have len: "length (connections (mount pAB 0)) = 2"
    by (simp add: model_defs pAB_def)
  then have a: "(2::int) < 0 \<or> int (length (connections (mount pAB 0))) \<le> 2"
    by simp
  have b: "(- 1::int) < 0 \<or> int (length (connections (mount pAB 0))) \<le> - 1"
    by simp
  from retry_out_of_range [OF a] retry_out_of_range [OF b] a show ?thesis
    by blast
qed

subsection \<open>Connector failures\<close>

lemma connectSettled_Inr:
  "connectSettled index out s =
     Inr (setConnections index (case out of Resolves r \<Rightarrow> statusOf r | Rejects \<Rightarrow> Error) s)"
  by (cases out) (simp_all add: connectSettled_def)

lemma resume_fields:
  "connections (resume who i s) = connections s"
  "currentIndex (resume who i s) = currentIndex s"
  "allComplete (resume who i s) = allComplete s"
  "clock (resume who i s) = clock s"
  "props (resume who i s) = props s"
  "history (resume who i s) = history s"
  by (cases who; simp add: moveToNext_def)+

lemma setConnections_fields:
  "connections (setConnections i st s) = setStatus i st (connections s)"
  "currentIndex (setConnections i st s) = currentIndex s"
  "allComplete (setConnections i st s) = allComplete s"
  "clock (setConnections i st s) = clock s"
  "props (setConnections i st s) = props s"
  "tasks (setConnections i st s) = tasks s"
  "history (setConnections i st s) = history s @ [(clock s, i, st)]"
  by (simp_all add: setConnections_def)

lemma dropTask_fields:
  "connections (dropTask n s) = connections s"
  "currentIndex (dropTask n s) = currentIndex s"
  "allComplete (dropTask n s) = allComplete s"
  "clock (dropTask n s) = clock s"
  "props (dropTask n s) = props s"
  "history (dropTask n s) = history s"
  "tasks (dropTask n s) = take n (tasks s) @ drop (Suc n) (tasks s)"
  by (simp_all add: dropTask_def)

lemma step_not_Thrown: "step e s \<noteq> Inl Thrown"
proof (cases e)
  case (Settle n out)
  have "settleTask t out s0 \<noteq> Inl Thrown" for t s0
    by (cases t) (simp_all add: connectSettled_Inr)
  with Settle show ?thesis
    by (simp split: option.splits)
next
  case (Fire n u)
  have "fireTask t u s0 \<noteq> Inl Thrown" for t s0
    by (cases t) simp_all
  with Fire show ?thesis
    by (simp split: option.splits)
qed simp_all

lemma exec_not_Thrown: "exec es s \<noteq> Inl Thrown"
  by (induction es arbitrary: s) (auto split: sum.splits simp: step_not_Thrown)

text \<open>
  C3. When the connector call of an attempt (of the sequencer or of a retry) rejects,
  the \<^verbatim>\<open>try\<close> block raises, the step that settles the attempt still succeeds and
  writes \<open>Error\<close> to the attempt's record; no step and no run of the hook ever
  ends in a raised exception.
\<close>

theorem connector_failure_absorbed:
  assumes "taskAt s n = Some (Awaiting index pid credentials who)"
    and "0 \<le> index" and "index < int (length (connections s))"
  shows "tryConnect index Rejects (dropTask n s) = Inl Thrown
       \<and> (\<exists>s'. step (Settle n Rejects) s = Inr s'
              \<and> status (connections s' ! nat index) = Error
              \<and> history s' = history s @ [(clock s, index, Error)])
       \<and> (\<forall>e s0. step e s0 \<noteq> Inl Thrown)
       \<and> (\<forall>es s0. exec es s0 \<noteq> Inl Thrown)"
proof -
  let ?s' = "resume who index (setConnections index Error (dropTask n s))"
  have st: "step (Settle n Rejects) s = Inr ?s'"
    using assms(1) by (simp add: connectSettled_Inr)
  have "nat index < length (connections s)"
    using assms(2,3) by linarith
  then have "status (connections ?s' ! nat index) = Error"
    using assms(2)
    by (simp add: resume_fields setConnections_fields dropTask_fields nth_setStatus)
  moreover have "history ?s' = history s @ [(clock s, index, Error)]"
    by (simp add: resume_fields setConnections_fields dropTask_fields)
  ultimately show ?thesis
    using st by (simp add: step_not_Thrown exec_not_Thrown)
qed

theorem connector_failure_absorbed_witness:
  "taskAt (mount pAB 0) 0 = Some (Awaiting 0 ''A'' None Sequencer)
   \<and> (0::int) \<le> 0 \<and> (0::int) < int (length (connections (mount pAB 0)))
   \<and> (\<exists>s'. step (Settle 0 Rejects) (mount pAB 0) = Inr s'
          \<and> status (connections s' ! nat 0) = Error
          \<and> history s' = history (mount pAB 0) @ [(clock (mount pAB 0), 0, Error)])"
proof -
  have a: "taskAt (mount pAB 0) 0 = Some (Awaiting 0 ''A'' None Sequencer)"
    by (simp add: model_defs pAB_def)
  have b: "(0::int) < int (length (connections (mount pAB 0)))"
    by (simp add: model_defs pAB_def)
  from connector_failure_absorbed [OF a _ b] a b show ?thesis
    by simp
qed

subsection \<open>Retry\<close>

lemma settledABC_reached:
  "exec [Settle 0 (Resolves ResultSuccess), Advance 500, Fire 0 0,
         Settle 0 (Resolves ResultError), Advance 500, Fire 0 0,
         Settle 0 (Resolves ResultSuccess), Advance 500, Fire 0 0] (mount pABC 0) = Inr settledABC"
  by (simp add: model_defs pABC_def settledABC_def)

lemma runConnection_fields:
  "currentIndex (runConnection index credentials who u s) = currentIndex s"
  "allComplete (runConnection index credentials who u s) = allComplete s"
  "clock (runConnection index credentials who u s) = clock s"
  "props (runConnection index credentials who u s) = props s"
  by (simp_all add: runConnection_def Let_def resume_fields setConnections_fields split: option.splits)

lemma connections_runConnection:
  "connections (runConnection index credentials who u s) =
     (if 0 \<le> index \<and> index < int (length (connections s)) \<and>
         platformId (connections s ! nat index) \<noteq> []
      then setStatus index Connecting (connections s) else connections s)"
  by (simp add: runConnection_def Let_def resume_fields setConnections_fields element_def)

lemma retryFrame_setStatus:
  assumes "currentIndex s' = currentIndex s" and "allComplete s' = allComplete s"
    and "connections s' = setStatus j st (connections s)"
  shows "retryFrame j s s'"
  using assms by (simp add: retryFrame_def platformId_setStatus nth_setStatus)

lemma retryFrame_same:
  assumes "currentIndex s' = currentIndex s" and "allComplete s' = allComplete s"
    and "connections s' = connections s"
  shows "retryFrame j s s'"
  using assms by (simp add: retryFrame_def)

text \<open>
  C5. A retry of a valid index \<open>j\<close> writes only record \<open>j\<close>. The call itself and the
  later step that completes the attempt (the connector settling, or the fallback timer
  firing when no connector is supplied) leave \<open>currentIndex\<close>, \<open>allComplete\<close>, the
  platform ids and the status of every other record as they were, in whatever state the
  completion finds the hook, and schedule no sequencer timer. A record with a non-empty
  platform id goes to \<open>Connecting\<close> at the call and, at completion, to the status the
  connector resolved with, to \<open>Error\<close> when it rejected.
\<close>

theorem retry_writes_only_its_record:
  assumes "0 \<le> j" and "j < int (length (connections s))"
  shows "retryFrame j s (retryConnection j credentials u s)
       \<and> (platformId (connections s ! nat j) \<noteq> [] \<longrightarrow>
            status (connections (retryConnection j credentials u s) ! nat j) = Connecting
            \<and> tasks (retryConnection j credentials u s) =
                tasks s @ [if connectPlatform (props s)
                           then Awaiting j (platformId (connections s ! nat j)) credentials RetryGate
                           else Sleeping j (clock s + fallbackDelay u) RetryGate])
       \<and> (\<forall>s2 n pid out.
             taskAt s2 n = Some (Awaiting j pid credentials RetryGate)
             \<and> length (connections s2) = length (connections s) \<longrightarrow>
             (\<exists>s3. step (Settle n out) s2 = Inr s3 \<and> retryFrame j s2 s3
                \<and> status (connections s3 ! nat j) =
                    (case out of Resolves r \<Rightarrow> statusOf r | Rejects \<Rightarrow> Error)
                \<and> tasks s3 = tasks (dropTask n s2)))
       \<and> (\<forall>s2 n due u2.
             taskAt s2 n = Some (Sleeping j due RetryGate) \<and> due \<le> clock s2
             \<and> length (connections s2) = length (connections s) \<longrightarrow>
             (\<exists>s3. step (Fire n u2) s2 = Inr s3 \<and> retryFrame j s2 s3
                \<and> status (connections s3 ! nat j) = (if fallbackSuccess u2 then Success else Error)
                \<and> tasks s3 = tasks (dropTask n s2)))"
proof -
  have jn: "nat j < length (connections s)" and jj: "int (nat j) = j"
    using assms by simp_all
  have start: "retryFrame j s (retryConnection j credentials u s)"
    unfolding retryConnection_def
    by (cases "platformId (connections s ! nat j) = []")
       (simp_all add: retryFrame_setStatus retryFrame_same runConnection_fields
          connections_runConnection assms)
  have conn: "platformId (connections s ! nat j) \<noteq> [] \<longrightarrow>
            status (connections (retryConnection j credentials u s) ! nat j) = Connecting
            \<and> tasks (retryConnection j credentials u s) =
                tasks s @ [if connectPlatform (props s)
                           then Awaiting j (platformId (connections s ! nat j)) credentials RetryGate
                           else Sleeping j (clock s + fallbackDelay u) RetryGate]"
    using assms jn
    by (simp add: retryConnection_def runConnection_def element_def Let_def
        setConnections_fields nth_setStatus)
  have settle: "\<exists>s3. step (Settle n out) s2 = Inr s3 \<and> retryFrame j s2 s3
                \<and> status (connections s3 ! nat j) =
                    (case out of Resolves r \<Rightarrow> statusOf r | Rejects \<Rightarrow> Error)
                \<and> tasks s3 = tasks (dropTask n s2)"
    if t: "taskAt s2 n = Some (Awaiting j pid credentials RetryGate)"
      and len: "length (connections s2) = length (connections s)" for s2 n pid out
  proof -
    let ?st = "case out of Resolves r \<Rightarrow> statusOf r | Rejects \<Rightarrow> Error"
    let ?s3 = "setConnections j ?st (dropTask n s2)"
    have "step (Settle n out) s2 = Inr ?s3"
      using t by (simp add: connectSettled_Inr)
    moreover have "retryFrame j s2 ?s3"
      by (rule retryFrame_setStatus) (simp_all add: setConnections_fields dropTask_fields)
    moreover have "status (connections ?s3 ! nat j) = ?st"
      using jn jj len by (simp add: setConnections_fields dropTask_fields nth_setStatus)
    moreover have "tasks ?s3 = tasks (dropTask n s2)"
      by (simp add: setConnections_fields)
    ultimately show ?thesis by blast
  qed
  have fire: "\<exists>s3. step (Fire n u2) s2 = Inr s3 \<and> retryFrame j s2 s3
                \<and> status (connections s3 ! nat j) = (if fallbackSuccess u2 then Success else Error)
                \<and> tasks s3 = tasks (dropTask n s2)"
    if t: "taskAt s2 n = Some (Sleeping j due RetryGate)" and due: "due \<le> clock s2"
      and len: "length (connections s2) = length (connections s)" for s2 n due u2
  proof -
    let ?st = "if fallbackSuccess u2 then Success else Error"
    let ?s3 = "setConnections j ?st (dropTask n s2)"
    have "step (Fire n u2) s2 = Inr ?s3"
      using t due by (simp add: fallbackDone_def dropTask_fields)
    moreover have "retryFrame j s2 ?s3"
      by (rule retryFrame_setStatus) (simp_all add: setConnections_fields dropTask_fields)
    moreover have "status (connections ?s3 ! nat j) = ?st"
      using jn jj len by (simp add: setConnections_fields dropTask_fields nth_setStatus)
    moreover have "tasks ?s3 = tasks (dropTask n s2)"
      by (simp add: setConnections_fields)
    ultimately show ?thesis by blast
  qed
  from start conn settle fire show ?thesis
    by blast
qed

theorem retry_writes_only_its_record_witness:
  "(0::int) \<le> 1 \<and> (1::int) < int (length (connections settledABC))
   \<and> exec [Settle 0 (Resolves ResultSuccess), Advance 500, Fire 0 0,
         Settle 0 (Resolves ResultError), Advance 500, Fire 0 0,
         Settle 0 (Resolves ResultSuccess), Advance 500, Fire 0 0] (mount pABC 0) = Inr settledABC
   \<and> retryFrame 1 settledABC retriedABC
   \<and> map status (connections retriedABC) = [Success, Connecting, Success]
   \<and> allComplete retriedABC \<and> currentIndex retriedABC = 2
   \<and> taskAt retriedABC 0 = Some (Awaiting 1 ''B'' (Some credsB) RetryGate)
   \<and> (\<exists>s3. step (Settle 0 (Resolves ResultSuccess)) retriedABC = Inr s3
          \<and> retryFrame 1 retriedABC s3
          \<and> status (connections s3 ! nat 1) = Success
          \<and> tasks s3 = tasks (dropTask 0 retriedABC))"
proof -
  have h1: "(0::int) \<le> 1"
    by simp
  have h2: "(1::int) < int (length (connections settledABC))"
    by (simp add: settledABC_def)
  have sts: "map status (connections retriedABC) = [Success, Connecting, Success]"
    by (simp add: retriedABC_def model_defs settledABC_def pABC_def)
  have ac: "allComplete retriedABC"
    by (simp add: retriedABC_def model_defs settledABC_def pABC_def)
  have ci: "currentIndex retriedABC = 2"
    by (simp add: retriedABC_def model_defs settledABC_def pABC_def)
  have t: "taskAt retriedABC 0 = Some (Awaiting 1 ''B'' (Some credsB) RetryGate)"
    by (simp add: retriedABC_def model_defs settledABC_def pABC_def)
  have l2: "length (connections retriedABC) = length (connections settledABC)"
    by (simp add: retriedABC_def model_defs settledABC_def pABC_def)
  note inst = retry_writes_only_its_record [OF h1 h2, of "Some credsB" 0]
  have frame: "retryFrame 1 settledABC retriedABC"
    unfolding retriedABC_def by (rule inst [THEN conjunct1])
  have "\<exists>s3. step (Settle 0 (Resolves ResultSuccess)) retriedABC = Inr s3
          \<and> retryFrame 1 retriedABC s3
          \<and> status (connections s3 ! nat 1) =
               (case Resolves ResultSuccess of Resolves r \<Rightarrow> statusOf r | Rejects \<Rightarrow> Error)
          \<and> tasks s3 = tasks (dropTask 0 retriedABC)"
    using inst [THEN conjunct2, THEN conjunct2, THEN conjunct1, rule_format,
        of retriedABC 0 "''B''" "Resolves ResultSuccess"] t l2
    by blast
  then have fin: "\<exists>s3. step (Settle 0 (Resolves ResultSuccess)) retriedABC = Inr s3
          \<and> retryFrame 1 retriedABC s3
          \<and> status (connections s3 ! nat 1) = Success
          \<and> tasks s3 = tasks (dropTask 0 retriedABC)"
    by simp
  show ?thesis
    using h1 h2 settledABC_reached frame sts ac ci t fin by blast
qed

subsection \<open>Invariants of runs\<close>

lemma exec_invariant:
  assumes "exec es s = Inr s'" and "P s" and "\<forall>e\<in>set es. ok e"
    and step: "\<And>e s s'. P s \<Longrightarrow> ok e \<Longrightarrow> step e s = Inr s' \<Longrightarrow> P s'"
  shows "P s'"
  using assms(1-3)
proof (induction es arbitrary: s)
  case Nil
  then show ?case by simp
next
  case (Cons e es)
  then obtain s1 where s1: "step e s = Inr s1" "exec es s1 = Inr s'"
    by (auto split: sum.splits)
  from Cons.prems have "ok e" and rest: "\<forall>e\<in>set es. ok e"
    by simp_all
  with Cons.prems(2) s1(1) have "P s1"
    by (blast intro: step)
  with s1(2) show ?case
    using rest by (rule Cons.IH)
qed

subsection \<open>The sequencer\<close>

lemma terminal_not_Connecting: "terminal st \<Longrightarrow> st \<noteq> Connecting"
  by (auto simp: terminal_def)

lemma finishedBy_cong: "history s' = history s \<Longrightarrow> finishedBy s' k t = finishedBy s k t"
  by (simp add: finishedBy_def)

lemma finishedBy_later:
  assumes "finishedBy s k t" and "t \<le> t2"
  shows "finishedBy s k t2"
  unfolding finishedBy_def
proof (intro allI impI)
  fix t'
  assume "(t', k, Connecting) \<in> set (history s)"
  with assms(1) obtain t0 st where
    "terminal st" "(t0, k, st) \<in> set (history s)" "t' \<le> t0" "t0 + 500 \<le> t"
    unfolding finishedBy_def by blast
  with assms(2) show "\<exists>t0 st. terminal st \<and> (t0, k, st) \<in> set (history s) \<and> t' \<le> t0 \<and> t0 + 500 \<le> t2"
    by (intro exI [of _ t0] exI [of _ st]) simp
qed

lemma finishedBy_append:
  assumes fin: "finishedBy s k t"
    and hist: "history s' = history s @ [(tn, kn, stn)]"
    and other: "kn \<noteq> k \<or> stn \<noteq> Connecting"
  shows "finishedBy s' k t"
  unfolding finishedBy_def
proof (intro allI impI)
  fix t'
  assume "(t', k, Connecting) \<in> set (history s')"
  with hist other have "(t', k, Connecting) \<in> set (history s)"
    by auto
  with fin obtain t0 st where
    "terminal st" "(t0, k, st) \<in> set (history s)" "t' \<le> t0" "t0 + 500 \<le> t"
    unfolding finishedBy_def by blast
  then show "\<exists>t0 st. terminal st \<and> (t0, k, st) \<in> set (history s') \<and> t' \<le> t0 \<and> t0 + 500 \<le> t"
    by (intro exI [of _ t0] exI [of _ st]) (simp add: hist)
qed

lemma finishedBy_fresh:
  assumes "\<forall>t st. (t, k, st) \<notin> set (history s)"
  shows "finishedBy s k t"
  using assms by (simp add: finishedBy_def)

text \<open>A status is written to the record under the cursor.\<close>

lemma historyInv_append:
  assumes inv: "historyInv s"
    and hist: "history s' = history s @ [(clock s, currentIndex s, st)]"
    and same: "currentIndex s' = currentIndex s" "clock s' = clock s"
    and c0: "0 \<le> currentIndex s"
    and fresh: "st = Connecting \<longrightarrow> (\<forall>t k st0. (t, k, st0) \<in> set (history s) \<longrightarrow> k < currentIndex s)"
  shows "historyInv s'"
proof -
  let ?c = "currentIndex s"
  have q: "\<forall>t k st. (t, k, st) \<in> set (history s) \<longrightarrow> 0 \<le> k \<and> k \<le> ?c \<and> t \<le> clock s"
    and p: "\<forall>k. k < ?c \<longrightarrow> finishedBy s k (clock s)"
    and d: "\<forall>t k k'. (t, k, Connecting) \<in> set (history s) \<and> k' < k \<longrightarrow> finishedBy s k' t"
    using inv unfolding historyInv_def by blast+
  have q': "\<forall>t k st. (t, k, st) \<in> set (history s') \<longrightarrow> 0 \<le> k \<and> k \<le> currentIndex s' \<and> t \<le> clock s'"
    using q c0 by (auto simp: hist same)
  have p': "\<forall>k. k < currentIndex s' \<longrightarrow> finishedBy s' k (clock s')"
  proof (intro allI impI)
    fix k assume "k < currentIndex s'"
    then have k: "k < ?c"
      by (simp add: same)
    with p have "finishedBy s k (clock s)"
      by blast
    then have "finishedBy s' k (clock s)"
      using hist by (rule finishedBy_append) (use k in simp)
    then show "finishedBy s' k (clock s')"
      by (simp add: same)
  qed
  have d': "\<forall>t k k'. (t, k, Connecting) \<in> set (history s') \<and> k' < k \<longrightarrow> finishedBy s' k' t"
  proof (intro allI impI)
    fix t k k'
    assume h: "(t, k, Connecting) \<in> set (history s') \<and> k' < k"
    then consider "(t, k, Connecting) \<in> set (history s)"
      | "t = clock s" "k = ?c" "st = Connecting"
      by (auto simp: hist)
    then show "finishedBy s' k' t"
    proof cases
      case 1
      with d h have f: "finishedBy s k' t"
        by blast
      from 1 q have "k \<le> ?c"
        by blast
      with h have "k' < ?c"
        by simp
      then have "?c \<noteq> k' \<or> st \<noteq> Connecting"
        by simp
      with f hist show ?thesis
        by (rule finishedBy_append)
    next
      case 2
      with h have k': "k' < ?c"
        by simp
      with p have "finishedBy s k' (clock s)"
        by blast
      then have "finishedBy s' k' (clock s)"
        using hist by (rule finishedBy_append) (use k' in simp)
      with 2 show ?thesis
        by simp
    qed
  qed
  show ?thesis
    unfolding historyInv_def using q' p' d' by (intro conjI) assumption+
qed

text \<open>The cursor moves forward, or time passes.\<close>

lemma historyInv_moved:
  assumes inv: "historyInv s"
    and same: "history s2 = history s"
    and clk: "clock s \<le> clock s2"
    and cur: "currentIndex s \<le> currentIndex s2"
    and fin: "\<forall>k. currentIndex s \<le> k \<and> k < currentIndex s2 \<longrightarrow> finishedBy s k (clock s)"
  shows "historyInv s2"
proof -
  have q: "\<forall>t k st. (t, k, st) \<in> set (history s) \<longrightarrow> 0 \<le> k \<and> k \<le> currentIndex s \<and> t \<le> clock s"
    and p: "\<forall>k. k < currentIndex s \<longrightarrow> finishedBy s k (clock s)"
    and d: "\<forall>t k k'. (t, k, Connecting) \<in> set (history s) \<and> k' < k \<longrightarrow> finishedBy s k' t"
    using inv unfolding historyInv_def by blast+
  have fb: "finishedBy s2 k t = finishedBy s k t" for k t
    using same by (rule finishedBy_cong)
  have q': "\<forall>t k st. (t, k, st) \<in> set (history s2) \<longrightarrow> 0 \<le> k \<and> k \<le> currentIndex s2 \<and> t \<le> clock s2"
  proof (intro allI impI)
    fix t k st assume "(t, k, st) \<in> set (history s2)"
    then have "(t, k, st) \<in> set (history s)"
      by (simp add: same)
    with q have "0 \<le> k \<and> k \<le> currentIndex s \<and> t \<le> clock s"
      by blast
    with clk cur show "0 \<le> k \<and> k \<le> currentIndex s2 \<and> t \<le> clock s2"
      by simp
  qed
  have p': "\<forall>k. k < currentIndex s2 \<longrightarrow> finishedBy s2 k (clock s2)"
  proof (intro allI impI)
    fix k assume k: "k < currentIndex s2"
    have "finishedBy s k (clock s)"
    proof (cases "k < currentIndex s")
      case True
      with p show ?thesis by blast
    next
      case False
      with k fin show ?thesis by simp
    qed
    then have "finishedBy s k (clock s2)"
      using clk by (rule finishedBy_later)
    then show "finishedBy s2 k (clock s2)"
      by (simp add: fb)
  qed
  have d': "\<forall>t k k'. (t, k, Connecting) \<in> set (history s2) \<and> k' < k \<longrightarrow> finishedBy s2 k' t"
    using d by (simp add: fb same)
  show ?thesis
    unfolding historyInv_def using q' p' d' by (intro conjI) assumption+
qed

lemma historyInv_cong:
  assumes "historyInv s" and "history s2 = history s" and "clock s2 = clock s"
    and "currentIndex s2 = currentIndex s"
  shows "historyInv s2"
  using assms(1,2) by (rule historyInv_moved) (auto simp: assms)

lemma ledgerInv_cong:
  assumes "ledgerInv s" and "connections s2 = connections s" and "currentIndex s2 = currentIndex s"
  shows "ledgerInv s2"
  using assms by (simp add: ledgerInv_def ledgerIds_def)

lemma ledgerInv_moved:
  assumes inv: "ledgerInv s"
    and same: "connections s2 = connections s"
    and cur: "currentIndex s < currentIndex s2" "currentIndex s2 < int (length (connections s))"
      "0 \<le> currentIndex s2"
    and none: "\<forall>i<length (connections s). status (connections s ! i) \<noteq> Connecting"
  shows "ledgerInv s2"
proof -
  have b: "\<forall>i<length (connections s). currentIndex s2 < int i \<longrightarrow> status (connections s ! i) = Pending"
    using inv cur(1) unfolding ledgerInv_def by auto
  have g: "\<forall>i<length (connections s). ledgerIds s2 ! i = [] \<longrightarrow> status (connections s ! i) = Pending"
    using inv unfolding ledgerInv_def by (simp add: ledgerIds_def same)
  show ?thesis
    unfolding ledgerInv_def using b g none cur by (simp add: same)
qed

lemma ledgerInv_write:
  assumes inv: "ledgerInv s"
    and c: "0 \<le> currentIndex s" "currentIndex s < int (length (connections s))"
    and idc: "ledgerIds s ! nat (currentIndex s) \<noteq> []"
    and st: "st \<noteq> Pending"
    and others: "st = Connecting \<longrightarrow> (\<forall>i<length (connections s). status (connections s ! i) \<noteq> Connecting)"
    and conn: "connections s' = setStatus (currentIndex s) st (connections s)"
    and cur: "currentIndex s' = currentIndex s"
  shows "ledgerInv s'"
proof -
  let ?c = "currentIndex s"
  have ids: "ledgerIds s' = ledgerIds s"
    by (simp add: ledgerIds_def conn platformId_setStatus)
  have a: "\<forall>i<length (connections s'). status (connections s' ! i) = Connecting \<longrightarrow> int i = currentIndex s'"
    using inv unfolding ledgerInv_def by (simp add: conn cur length_setStatus nth_setStatus)
  have b: "\<forall>i<length (connections s'). currentIndex s' < int i \<longrightarrow> status (connections s' ! i) = Pending"
    using inv unfolding ledgerInv_def by (simp add: conn cur length_setStatus nth_setStatus)
  have g: "\<forall>i<length (connections s'). ledgerIds s' ! i = [] \<longrightarrow> status (connections s' ! i) = Pending"
  proof (intro allI impI)
    fix i assume i: "i < length (connections s')" and e: "ledgerIds s' ! i = []"
    then have "i \<noteq> nat ?c"
      using idc by (auto simp: ids)
    then have "int i \<noteq> ?c"
      by auto
    moreover have "status (connections s ! i) = Pending"
      using inv i e unfolding ledgerInv_def by (simp add: ids conn length_setStatus)
    ultimately show "status (connections s' ! i) = Pending"
      using i by (simp add: conn length_setStatus nth_setStatus)
  qed
  show ?thesis
    unfolding ledgerInv_def using a b g c by (simp add: cur conn length_setStatus)
qed

text \<open>The sequencer starts the attempt of the record under the cursor.\<close>

lemma seqInv_start:
  assumes inv: "seqInv s" and idle: "tasks s = []"
    and c: "0 \<le> currentIndex s" "currentIndex s < int (length (connections s))"
    and pend: "status (connections s ! nat (currentIndex s)) = Pending"
    and fresh: "\<forall>t k st0. (t, k, st0) \<in> set (history s) \<longrightarrow> k < currentIndex s"
  shows "seqInv (runConnection (currentIndex s) None Sequencer u s)"
proof -
  let ?c = "currentIndex s"
  let ?s' = "runConnection ?c None Sequencer u s"
  have li: "ledgerInv s" and hi: "historyInv s"
    using inv by (simp_all add: seqInv_def)
  have cn: "nat ?c < length (connections s)" and cc: "int (nat ?c) = ?c"
    using c by simp_all
  have none: "\<forall>i<length (connections s). status (connections s ! i) \<noteq> Connecting"
  proof (intro allI impI notI)
    fix i assume i: "i < length (connections s)" and "status (connections s ! i) = Connecting"
    with li have "int i = ?c"
      unfolding ledgerInv_def by blast
    then have "i = nat ?c"
      by simp
    with pend \<open>status (connections s ! i) = Connecting\<close> show False
      by simp
  qed
  show ?thesis
  proof (cases "platformId (connections s ! nat ?c) = []")
    case True
    then have eq: "?s' = moveToNext ?c s"
      using c by (simp add: runConnection_def element_def)
    have conn: "connections ?s' = connections s" and cur: "currentIndex ?s' = ?c"
      and clk: "clock ?s' = clock s" and hist: "history ?s' = history s"
      by (simp_all add: eq moveToNext_def)
    have tks: "tasks ?s' = [if ?c < int (length (connections s)) - 1
        then AdvanceTimer (?c + 1) (clock s + 500) else CompleteTimer (clock s + 500)]"
      by (simp add: eq moveToNext_def idle)
    have "finishedBy s ?c (clock s + 500)"
      by (rule finishedBy_fresh) (use fresh in blast)
    then have f0: "finishedBy ?s' ?c (clock s + 500)"
      by (simp add: finishedBy_cong [OF hist])
    have l': "ledgerInv ?s'"
      using li conn cur by (rule ledgerInv_cong)
    have h': "historyInv ?s'"
      using hi hist clk cur by (rule historyInv_cong)
    have nc: "status (connections ?s' ! nat ?c) \<noteq> Connecting"
      using pend by (simp add: conn)
    have "taskInv ?s' (AdvanceTimer (?c + 1) (clock s + 500))"
      if "?c < int (length (connections s)) - 1"
      using that nc f0 by (simp add: cur) (simp add: conn)
    moreover have "taskInv ?s' (CompleteTimer (clock s + 500))"
      using nc by (simp add: cur)
    ultimately have "tasksInv ?s'"
      using c(1) by (simp add: tasksInv_def tks cur)
    with l' h' show ?thesis
      by (simp add: seqInv_def)
  next
    case False
    define t where "t = (if connectPlatform (props s)
        then Awaiting ?c (platformId (connections s ! nat ?c)) None Sequencer
        else Sleeping ?c (clock s + fallbackDelay u) Sequencer)"
    have eq: "?s' = (setConnections ?c Connecting s)\<lparr>tasks := [t]\<rparr>"
      using False c
      by (simp add: runConnection_def element_def Let_def t_def setConnections_fields idle)
    have conn: "connections ?s' = setStatus ?c Connecting (connections s)"
      and cur: "currentIndex ?s' = ?c"
      and clk: "clock ?s' = clock s"
      and hist: "history ?s' = history s @ [(clock s, ?c, Connecting)]"
      and tks: "tasks ?s' = [t]"
      unfolding eq by (simp_all add: setConnections_fields)
    have idc: "ledgerIds s ! nat ?c \<noteq> []"
      using False cn by (simp add: ledgerIds_def)
    have ids: "ledgerIds ?s' = ledgerIds s"
      by (rule ids_runConnection)
    have l': "ledgerInv ?s'"
      using li c idc _ _ conn cur by (rule ledgerInv_write) (use none in simp_all)
    have h': "historyInv ?s'"
      using hi hist cur clk c(1) by (rule historyInv_append) (use fresh in blast)
    have "taskInv ?s' t"
      using idc by (simp add: t_def cur ids)
    then have "tasksInv ?s'"
      using c by (simp add: tasksInv_def tks cur)
    with l' h' show ?thesis
      by (simp add: seqInv_def)
  qed
qed

text \<open>The attempt of the record under the cursor ends with a terminal status.\<close>

lemma seqInv_finish:
  assumes inv: "seqInv s" and one: "tasks s = [t]"
    and c0: "0 \<le> currentIndex s" and trm: "terminal st"
    and idc: "ledgerIds s ! nat (currentIndex s) \<noteq> []"
  shows "seqInv (resume who (currentIndex s) (setConnections (currentIndex s) st (dropTask 0 s)))"
    (is "seqInv ?s'")
proof -
  let ?c = "currentIndex s"
  have li: "ledgerInv s" and hi: "historyInv s"
    using inv by (simp_all add: seqInv_def)
  have c: "?c < int (length (connections s))"
    using li c0 unfolding ledgerInv_def by linarith
  have cn: "nat ?c < length (connections s)" and cc: "int (nat ?c) = ?c"
    using c c0 by simp_all
  have conn: "connections ?s' = setStatus ?c st (connections s)"
    and cur: "currentIndex ?s' = ?c"
    and clk: "clock ?s' = clock s"
    and hist: "history ?s' = history s @ [(clock s, ?c, st)]"
    by (simp_all add: resume_fields setConnections_fields dropTask_fields)
  have nC: "st \<noteq> Connecting" and nP: "st \<noteq> Pending"
    using trm by (auto simp: terminal_def)
  have l': "ledgerInv ?s'"
    using li c0 c idc nP _ conn cur by (rule ledgerInv_write) (use nC in simp)
  have h': "historyInv ?s'"
    using hi hist cur clk c0 by (rule historyInv_append) (use nC in simp)
  have atc: "status (connections ?s' ! nat ?c) \<noteq> Connecting"
    using cn cc nC by (simp add: conn nth_setStatus)
  have fin: "finishedBy ?s' ?c (clock s + 500)"
    unfolding finishedBy_def
  proof (intro allI impI)
    fix t'
    assume "(t', ?c, Connecting) \<in> set (history ?s')"
    with nC have "(t', ?c, Connecting) \<in> set (history s)"
      by (auto simp: hist)
    with hi have "t' \<le> clock s"
      unfolding historyInv_def by blast
    with trm show "\<exists>t0 st. terminal st \<and> (t0, ?c, st) \<in> set (history ?s') \<and> t' \<le> t0
        \<and> t0 + 500 \<le> clock s + 500"
      by (intro exI [of _ "clock s"] exI [of _ st]) (simp add: hist)
  qed
  have "tasksInv ?s'"
  proof (cases who)
    case Sequencer
    have "tasks ?s' = [if ?c < int (length (connections s)) - 1
                      then AdvanceTimer (?c + 1) (clock s + 500) else CompleteTimer (clock s + 500)]"
      by (simp add: Sequencer moveToNext_def setConnections_fields dropTask_fields
          length_setStatus one)
    moreover have "taskInv ?s' (AdvanceTimer (?c + 1) (clock s + 500))"
      if "?c < int (length (connections s)) - 1"
      using that atc fin by (simp add: cur) (simp add: conn length_setStatus)
    moreover have "taskInv ?s' (CompleteTimer (clock s + 500))"
      using atc by (simp add: cur)
    ultimately show ?thesis
      using c0 by (simp add: tasksInv_def cur)
  next
    case RetryGate
    then show ?thesis
      by (simp add: tasksInv_def setConnections_fields dropTask_fields one)
  qed
  with l' h' show ?thesis
    by (simp add: seqInv_def)
qed

lemma taskInv_cong:
  "connections s' = connections s \<Longrightarrow> history s' = history s \<Longrightarrow>
   currentIndex s' = currentIndex s \<Longrightarrow> taskInv s' t = taskInv s t"
  by (cases t) (simp_all add: finishedBy_def ledgerIds_def)

lemma tasksInv_cong:
  assumes "tasksInv s" and "connections s' = connections s" and "history s' = history s"
    and "currentIndex s' = currentIndex s" and "tasks s' = tasks s"
  shows "tasksInv s'"
  using assms(1) taskInv_cong [OF assms(2-4)] by (simp add: tasksInv_def assms(4,5))

text \<open>Time passes or the props change: ledger, cursor, tasks and history stay.\<close>

lemma seqInv_cong:
  assumes inv: "seqInv s"
    and same: "connections s' = connections s" "history s' = history s"
      "currentIndex s' = currentIndex s" "tasks s' = tasks s"
    and clk: "clock s \<le> clock s'"
  shows "seqInv s'"
proof -
  have "ledgerInv s'"
    using inv same(1,3) unfolding seqInv_def by (blast intro: ledgerInv_cong)
  moreover have "tasksInv s'"
    using inv same unfolding seqInv_def by (blast intro: tasksInv_cong)
  moreover have "historyInv s'"
  proof (rule historyInv_moved)
    show "historyInv s"
      using inv by (simp add: seqInv_def)
  qed (auto simp: same clk)
  ultimately show ?thesis
    by (simp add: seqInv_def)
qed

text \<open>The cursor moves forward while nothing is connecting and nothing is pending.\<close>

lemma seqInv_moved:
  assumes inv: "seqInv s"
    and same: "connections s2 = connections s" "history s2 = history s" "clock s2 = clock s"
    and idle: "tasks s2 = []"
    and cur: "currentIndex s < currentIndex s2" "currentIndex s2 < int (length (connections s))"
      "0 \<le> currentIndex s2"
    and none: "\<forall>i<length (connections s). status (connections s ! i) \<noteq> Connecting"
    and fin: "\<forall>k. currentIndex s \<le> k \<and> k < currentIndex s2 \<longrightarrow> finishedBy s k (clock s)"
  shows "seqInv s2"
proof -
  have "ledgerInv s2"
    using inv same(1) cur none unfolding seqInv_def by (blast intro: ledgerInv_moved)
  moreover have "historyInv s2"
  proof (rule historyInv_moved)
    show "historyInv s"
      using inv by (simp add: seqInv_def)
  qed (use same cur fin in simp_all)
  ultimately show ?thesis
    by (simp add: seqInv_def tasksInv_def idle)
qed

lemma seqInv_not_started:
  assumes "seqInv s" and "currentIndex s = - 1"
  shows "tasks s = []" and "\<forall>i<length (connections s). status (connections s ! i) = Pending"
    and "history s = []"
proof -
  from assms(1) have "tasksInv s" and li: "ledgerInv s" and hi: "historyInv s"
    by (simp_all add: seqInv_def)
  with assms(2) show "tasks s = []"
    by (auto simp: tasksInv_def)
  from li have "\<forall>i<length (connections s). currentIndex s < int i \<longrightarrow> status (connections s ! i) = Pending"
    unfolding ledgerInv_def by blast
  with assms(2) show "\<forall>i<length (connections s). status (connections s ! i) = Pending"
    by simp
  from hi have q: "\<forall>t k st. (t, k, st) \<in> set (history s) \<longrightarrow> 0 \<le> k \<and> k \<le> currentIndex s"
    unfolding historyInv_def by blast
  show "history s = []"
  proof (cases "history s")
    case (Cons e es)
    obtain t k st where "e = (t, k, st)"
      by (cases e) auto
    with Cons q have "0 \<le> k \<and> k \<le> currentIndex s"
      by simp
    with assms(2) show ?thesis
      by simp
  qed simp
qed

lemma seqInv_autoStartEffect:
  assumes inv: "seqInv s"
  shows "seqInv (autoStartEffect u s)"
proof (cases "autoStart (props s) \<and> currentIndex s = - 1 \<and> length (connections s) > 0")
  case False
  then show ?thesis
    using inv by (auto simp: autoStartEffect_def)
next
  case True
  let ?s2 = "s\<lparr>currentIndex := 0\<rparr>"
  have idle: "tasks s = []"
    and pend: "\<forall>i<length (connections s). status (connections s ! i) = Pending"
    and hist: "history s = []"
    using seqInv_not_started [OF inv] True by auto
  have inv2: "seqInv ?s2"
  proof (rule seqInv_moved [OF inv])
    show "\<forall>k. currentIndex s \<le> k \<and> k < currentIndex ?s2 \<longrightarrow> finishedBy s k (clock s)"
      by (simp add: finishedBy_def hist)
  qed (use True idle pend in simp_all)
  have "seqInv (runConnection (currentIndex ?s2) None Sequencer u ?s2)"
    by (rule seqInv_start [OF inv2]) (use True idle pend hist in simp_all)
  then show ?thesis
    using True by (simp add: autoStartEffect_def setCurrentIndex_def sequencerEffect_def)
qed

lemma seqInv_rerender:
  assumes inv: "seqInv s"
  shows "seqInv (rerender p u s)"
proof -
  have "seqInv (s\<lparr>props := p\<rparr>)"
    using inv by (rule seqInv_cong) simp_all
  then show ?thesis
    by (simp add: rerender_def seqInv_autoStartEffect)
qed

lemma seqInv_single_task:
  assumes inv: "seqInv s" and t: "taskAt s n = Some t"
  shows "n = 0" and "tasks s = [t]" and "0 \<le> currentIndex s" and "taskInv s t"
proof -
  from inv have "tasks s = [] \<or> (\<exists>t. tasks s = [t] \<and> 0 \<le> currentIndex s \<and> taskInv s t)"
    unfolding seqInv_def tasksInv_def by blast
  moreover from t have "n < length (tasks s)" and "tasks s ! n = t"
    by (simp_all add: taskAt_def split: if_splits)
  ultimately show "n = 0" and "tasks s = [t]" and "0 \<le> currentIndex s" and "taskInv s t"
    by auto
qed

lemma seqInv_settle:
  assumes inv: "seqInv s" and st: "step (Settle n out) s = Inr s'"
  shows "seqInv s'"
proof -
  from st obtain t where t: "taskAt s n = Some t" and s': "settleTask t out (dropTask n s) = Inr s'"
    by (auto split: option.splits)
  note one = seqInv_single_task [OF inv t]
  from s' obtain i pid cr who where aw: "t = Awaiting i pid cr who"
    by (cases t) auto
  with one(4) have i: "i = currentIndex s" and idc: "ledgerIds s ! nat (currentIndex s) \<noteq> []"
    by auto
  define r where "r = (case out of Resolves x \<Rightarrow> statusOf x | Rejects \<Rightarrow> Error)"
  have tr: "terminal r"
  proof (cases out)
    case (Resolves x)
    then show ?thesis
      by (cases x) (simp_all add: r_def terminal_def)
  next
    case Rejects
    then show ?thesis
      by (simp add: r_def terminal_def)
  qed
  have "s' = resume who (currentIndex s) (setConnections (currentIndex s) r (dropTask 0 s))"
    using s' aw i one(1) by (simp add: connectSettled_Inr r_def)
  then show ?thesis
    using seqInv_finish [OF inv one(2) one(3) tr idc] by simp
qed

lemma seqInv_fire:
  assumes inv: "seqInv s" and st: "step (Fire n u) s = Inr s'"
  shows "seqInv s'"
proof -
  from st obtain t where t: "taskAt s n = Some t" and s': "fireTask t u (dropTask n s) = Inr s'"
    by (auto split: option.splits)
  note one = seqInv_single_task [OF inv t]
  let ?s1 = "dropTask 0 s"
  have s1: "connections ?s1 = connections s" "history ?s1 = history s"
    "currentIndex ?s1 = currentIndex s" "tasks ?s1 = []" "clock ?s1 = clock s"
    by (simp_all add: dropTask_fields one(2))
  have li: "ledgerInv s" and hi: "historyInv s"
    using inv by (simp_all add: seqInv_def)
  show ?thesis
  proof (cases t)
    case (Awaiting i pid cr who)
    with s' show ?thesis by simp
  next
    case (Sleeping i due who)
    with one(4) have i: "i = currentIndex s" and idc: "ledgerIds s ! nat (currentIndex s) \<noteq> []"
      by auto
    define r where "r = (if fallbackSuccess u then Success else Error)"
    have tr: "terminal r"
      by (simp add: r_def terminal_def)
    have "s' = resume who (currentIndex s) (setConnections (currentIndex s) r (dropTask 0 s))"
      using s' Sleeping i one(1) by (simp add: fallbackDone_def r_def split: if_splits)
    then show ?thesis
      using seqInv_finish [OF inv one(2) one(3) tr idc] by simp
  next
    case (AdvanceTimer k due)
    with one(4) have k: "k = currentIndex s + 1" "k < int (length (connections s))"
      and nc: "status (connections s ! nat (currentIndex s)) \<noteq> Connecting"
      and fin: "finishedBy s (currentIndex s) due"
      by simp_all
    from s' AdvanceTimer one(1) have due: "due \<le> clock s" and s'eq: "s' = setCurrentIndex k u ?s1"
      by (simp_all add: s1 split: if_splits)
    let ?s2 = "?s1\<lparr>currentIndex := k\<rparr>"
    have none: "\<forall>i<length (connections s). status (connections s ! i) \<noteq> Connecting"
    proof (intro allI impI notI)
      fix i assume "i < length (connections s)" and "status (connections s ! i) = Connecting"
      with li have "int i = currentIndex s"
        unfolding ledgerInv_def by blast
      then have "i = nat (currentIndex s)"
        by simp
      with nc \<open>status (connections s ! i) = Connecting\<close> show False
        by simp
    qed
    have finc: "finishedBy s (currentIndex s) (clock s)"
      using fin due by (rule finishedBy_later)
    have inv2: "seqInv ?s2"
    proof (rule seqInv_moved [OF inv])
      show "\<forall>j. currentIndex s \<le> j \<and> j < currentIndex ?s2 \<longrightarrow> finishedBy s j (clock s)"
      proof (intro allI impI)
        fix j assume "currentIndex s \<le> j \<and> j < currentIndex ?s2"
        then have "j = currentIndex s"
          using k(1) by simp
        with finc show "finishedBy s j (clock s)"
          by simp
      qed
    qed (use k one(3) none in \<open>simp_all add: s1\<close>)
    have pend: "status (connections s ! nat k) = Pending"
      using li k one(3) unfolding ledgerInv_def by simp
    have fresh: "\<forall>t0 j st0. (t0, j, st0) \<in> set (history ?s2) \<longrightarrow> j < currentIndex ?s2"
    proof (intro allI impI)
      fix t0 j st0 assume "(t0, j, st0) \<in> set (history ?s2)"
      then have "(t0, j, st0) \<in> set (history s)"
        by (simp add: s1)
      with hi have "j \<le> currentIndex s"
        unfolding historyInv_def by blast
      then show "j < currentIndex ?s2"
        using k(1) by simp
    qed
    have "seqInv (runConnection (currentIndex ?s2) None Sequencer u ?s2)"
      by (rule seqInv_start [OF inv2]) (use k one(3) pend fresh in \<open>simp_all add: s1\<close>)
    then show ?thesis
      using k one(3) by (simp add: s'eq setCurrentIndex_def sequencerEffect_def s1)
  next
    case (CompleteTimer due)
    with s' one(1) have s'eq: "s' = setAllComplete True ?s1"
      by (simp split: if_splits)
    have l': "ledgerInv s'"
      using li by (rule ledgerInv_cong) (simp_all add: s'eq setAllComplete_def s1)
    have h': "historyInv s'"
      using hi by (rule historyInv_cong) (simp_all add: s'eq setAllComplete_def s1)
    have "tasks s' = []"
      by (simp add: s'eq setAllComplete_def s1)
    with l' h' show ?thesis
      by (simp add: seqInv_def tasksInv_def)
  qed
qed

lemma seqInv_step:
  assumes inv: "seqInv s" and e: "\<not> isRetry e" and st: "step e s = Inr s'"
  shows "seqInv s'"
proof (cases e)
  case (Retry index credentials u)
  with e show ?thesis by simp
next
  case (Settle n out)
  with st have "step (Settle n out) s = Inr s'"
    by simp
  with inv show ?thesis by (rule seqInv_settle)
next
  case (Fire n u)
  with st have "step (Fire n u) s = Inr s'"
    by simp
  with inv show ?thesis by (rule seqInv_fire)
next
  case (Advance d)
  with st have d: "0 \<le> d" and s': "s' = s\<lparr>clock := clock s + d\<rparr>"
    by (simp_all split: if_splits)
  from inv show ?thesis
    by (rule seqInv_cong) (simp_all add: s' d)
next
  case (Rerender p u)
  with st have "s' = rerender p u s"
    by simp
  with inv show ?thesis by (simp add: seqInv_rerender)
qed

lemma seqInv_mount: "seqInv (mount p u)"
proof -
  have "seqInv (useConnectionStatus p)"
    by (simp add: seqInv_def ledgerInv_def tasksInv_def historyInv_def finishedBy_def
        useConnectionStatus_def)
  then show ?thesis
    unfolding mount_def by (rule seqInv_autoStartEffect)
qed

lemma skipped_reached: "exec [Advance 500, Fire 0 0] (mount pSkip 0) = Inr skipped"
  by (simp add: model_defs pSkip_def skipped_def)

text \<open>
  C6. In an auto-run without retries the sequencer works through the ledger in order,
  one attempt at a time. In every state such a run goes through: at most one record is
  connecting; every record after the cursor is still pending; and for any two attempts,
  of records \<open>k' < k\<close>, started at \<open>t'\<close> and \<open>t\<close>, the outcome of record \<open>k'\<close> (success
  or error) was written at a time \<open>t0\<close> after \<open>t'\<close> with \<open>t0 + 500 \<le> t\<close>: the later
  attempt started only when the earlier outcome was recorded and the settle delay had
  passed. An attempt is what \<^verbatim>\<open>runConnection\<close> does past its guard; a record whose
  platform id is empty gets none and stays pending.
\<close>

theorem sequencer_strict_order:
  assumes "exec es (mount p u) = Inr s" and "\<forall>e\<in>set es. \<not> isRetry e"
  shows "(\<forall>i<length (connections s). \<forall>j<length (connections s).
            status (connections s ! i) = Connecting \<and> status (connections s ! j) = Connecting
            \<longrightarrow> i = j)
       \<and> (\<forall>i<length (connections s). currentIndex s < int i \<longrightarrow>
            status (connections s ! i) = Pending)
       \<and> (\<forall>t k t' k'. (t, k, Connecting) \<in> set (history s)
              \<and> (t', k', Connecting) \<in> set (history s) \<and> k' < k \<longrightarrow>
            (\<exists>t0 st. (st = Success \<or> st = Error) \<and> (t0, k', st) \<in> set (history s)
                \<and> t' \<le> t0 \<and> t0 + 500 \<le> t))
       \<and> (\<forall>i<length (connections s). platformIds p ! i = [] \<longrightarrow>
            status (connections s ! i) = Pending)"
proof -
  have inv: "seqInv s"
    using assms(1) seqInv_mount assms(2) by (rule exec_invariant) (rule seqInv_step)
  then have li: "ledgerInv s" and hi: "historyInv s"
    by (simp_all add: seqInv_def)
  have ids: "ledgerIds s = platformIds p"
    using ids_exec [OF assms(1)] by (simp add: ids_mount)
  have one: "\<forall>i<length (connections s). status (connections s ! i) = Connecting \<longrightarrow> int i = currentIndex s"
    using li unfolding ledgerInv_def by blast
  have a: "\<forall>i<length (connections s). \<forall>j<length (connections s).
            status (connections s ! i) = Connecting \<and> status (connections s ! j) = Connecting
            \<longrightarrow> i = j"
  proof (intro allI impI)
    fix i j
    assume "i < length (connections s)" "j < length (connections s)"
      "status (connections s ! i) = Connecting \<and> status (connections s ! j) = Connecting"
    with one have "int i = currentIndex s" "int j = currentIndex s"
      by blast+
    then show "i = j"
      by simp
  qed
  have b: "\<forall>i<length (connections s). currentIndex s < int i \<longrightarrow> status (connections s ! i) = Pending"
    using li unfolding ledgerInv_def by blast
  have c: "\<forall>i<length (connections s). platformIds p ! i = [] \<longrightarrow> status (connections s ! i) = Pending"
    using li unfolding ledgerInv_def ids by blast
  have e: "\<forall>t k k'. (t, k, Connecting) \<in> set (history s) \<and> k' < k \<longrightarrow> finishedBy s k' t"
    using hi unfolding historyInv_def by blast
  have d: "\<forall>t k t' k'. (t, k, Connecting) \<in> set (history s)
              \<and> (t', k', Connecting) \<in> set (history s) \<and> k' < k \<longrightarrow>
            (\<exists>t0 st. (st = Success \<or> st = Error) \<and> (t0, k', st) \<in> set (history s)
                \<and> t' \<le> t0 \<and> t0 + 500 \<le> t)"
  proof (intro allI impI)
    fix t k t' k'
    assume h: "(t, k, Connecting) \<in> set (history s)
              \<and> (t', k', Connecting) \<in> set (history s) \<and> k' < k"
    with e have "finishedBy s k' t"
      by blast
    with h show "\<exists>t0 st. (st = Success \<or> st = Error) \<and> (t0, k', st) \<in> set (history s)
                \<and> t' \<le> t0 \<and> t0 + 500 \<le> t"
      unfolding finishedBy_def terminal_def by blast
  qed
  show ?thesis
    using a b d c by (intro conjI) assumption+
qed

theorem sequencer_strict_order_witness:
  "exec [Settle 0 (Resolves ResultSuccess), Advance 500, Fire 0 0,
         Settle 0 (Resolves ResultError), Advance 500, Fire 0 0,
         Settle 0 (Resolves ResultSuccess), Advance 500, Fire 0 0] (mount pABC 0) = Inr settledABC
   \<and> list_all (\<lambda>e. \<not> isRetry e)
        [Settle 0 (Resolves ResultSuccess), Advance 500, Fire 0 0,
         Settle 0 (Resolves ResultError), Advance 500, Fire 0 0,
         Settle 0 (Resolves ResultSuccess), Advance 500, Fire 0 0]
   \<and> (1000, 2, Connecting) \<in> set (history settledABC)
   \<and> (500, 1, Connecting) \<in> set (history settledABC)
   \<and> (\<exists>t0 st. (st = Success \<or> st = Error) \<and> (t0, 1, st) \<in> set (history settledABC)
          \<and> 500 \<le> t0 \<and> t0 + 500 \<le> 1000)
   \<and> exec [Advance 500, Fire 0 0] (mount pSkip 0) = Inr skipped
   \<and> platformIds pSkip ! 0 = []
   \<and> status (connections skipped ! 0) = Pending"
proof -
  let ?es = "[Settle 0 (Resolves ResultSuccess), Advance 500, Fire 0 0,
         Settle 0 (Resolves ResultError), Advance 500, Fire 0 0,
         Settle 0 (Resolves ResultSuccess), Advance 500, Fire 0 0]"
  have nr: "\<forall>e\<in>set ?es. \<not> isRetry e"
    by simp
  have nr2: "\<forall>e\<in>set [Advance 500, Fire 0 0]. \<not> isRetry e"
    by simp
  have h1: "(1000, 2, Connecting) \<in> set (history settledABC)"
    and h2: "(500, 1, Connecting) \<in> set (history settledABC)"
    by (simp_all add: settledABC_def)
  note inst = sequencer_strict_order [OF settledABC_reached nr]
  note inst2 = sequencer_strict_order [OF skipped_reached nr2]
  have a: "\<exists>t0 st. (st = Success \<or> st = Error) \<and> (t0, 1, st) \<in> set (history settledABC)
          \<and> 500 \<le> t0 \<and> t0 + 500 \<le> 1000"
    by (rule inst [THEN conjunct2, THEN conjunct2, THEN conjunct1, rule_format, of 1000 2 500 1])
       (simp add: h1 h2)
  have l: "list_all (\<lambda>e. \<not> isRetry e) ?es"
    by simp
  have p: "platformIds pSkip ! 0 = []"
    by (simp add: pSkip_def)
  have "0 < length (connections skipped)"
    by (simp add: skipped_def)
  with inst2 [THEN conjunct2, THEN conjunct2, THEN conjunct2, rule_format, of 0] p
  have b: "status (connections skipped ! 0) = Pending"
    by blast
  show ?thesis
    using settledABC_reached l h1 h2 a skipped_reached p b by (intro conjI) assumption+
qed

subsection \<open>The empty platform id list\<close>

lemma emptyInv_step:
  assumes inv: "emptyInv s" and st: "step e s = Inr s'"
  shows "emptyInv s'"
proof (cases e)
  case (Retry index credentials u)
  from inv have "element (connections s) index = None"
    by (simp add: emptyInv_def element_def)
  then have "retryConnection index credentials u s = s"
    by (simp add: retryConnection_def runConnection_def)
  with Retry st inv show ?thesis
    by simp
next
  case (Settle n out)
  with inv st show ?thesis
    by (simp add: emptyInv_def taskAt_def)
next
  case (Fire n u)
  with inv st show ?thesis
    by (simp add: emptyInv_def taskAt_def)
next
  case (Advance d)
  with st have "s' = s\<lparr>clock := clock s + d\<rparr>"
    by (simp split: if_splits)
  with inv show ?thesis
    by (simp add: emptyInv_def)
next
  case (Rerender p u)
  with st have "s' = rerender p u s"
    by simp
  with inv show ?thesis
    by (simp add: emptyInv_def rerender_def autoStartEffect_def)
qed

lemma emptyInv_mount: "platformIds p = [] \<Longrightarrow> emptyInv (mount p u)"
  by (simp add: emptyInv_def mount_def autoStartEffect_def useConnectionStatus_def)

text \<open>
  Mounted with the empty id list and \<^verbatim>\<open>autoStart\<close>, the hook has an empty ledger,
  nothing pending, and \<open>allComplete\<close> is false.
\<close>

theorem empty_list_counterexample:
  "connections (mount pEmpty 0) = [] \<and> tasks (mount pEmpty 0) = []
   \<and> allComplete (mount pEmpty 0) = False"
  by (simp add: model_defs pEmpty_def)

text \<open>
  C2 (amended). For the empty platform id list the ledger is empty, \<open>successCount\<close> is
  0 and no attempt is ever run (no task is pending, no status is ever written), in every
  state the hook can reach; \<open>allComplete\<close> is false at once and stays false for ever:
  the first effect does not start the sequencer on an empty ledger
  (\<^verbatim>\<open>connections.length > 0\<close>), and only the sequencer sets \<open>allComplete\<close>.
\<close>

theorem empty_list_never_completes:
  assumes "platformIds p = []" and "exec es (mount p u) = Inr s"
  shows "connections s = [] \<and> successCount s = 0 \<and> \<not> allComplete s
       \<and> currentIndex s = - 1 \<and> tasks s = [] \<and> history s = []"
proof -
  have "emptyInv s"
    using assms(2) emptyInv_mount [OF assms(1)]
    by (rule exec_invariant [where ok = "\<lambda>e. True"]) (simp_all add: emptyInv_step)
  then show ?thesis
    by (simp add: emptyInv_def successCount_def)
qed

theorem empty_list_never_completes_witness:
  "platformIds pEmpty = []
   \<and> exec [Advance 1000, Retry 0 None 0, Rerender pAB 0] (mount pEmpty 0) =
       Inr ((useConnectionStatus pEmpty)\<lparr>clock := 1000, props := pAB\<rparr>)
   \<and> connections ((useConnectionStatus pEmpty)\<lparr>clock := 1000, props := pAB\<rparr>) = []
   \<and> successCount ((useConnectionStatus pEmpty)\<lparr>clock := 1000, props := pAB\<rparr>) = 0
   \<and> \<not> allComplete ((useConnectionStatus pEmpty)\<lparr>clock := 1000, props := pAB\<rparr>)"
proof -
  have p: "platformIds pEmpty = []"
    by (simp add: pEmpty_def)
  have run: "exec [Advance 1000, Retry 0 None 0, Rerender pAB 0] (mount pEmpty 0) =
       Inr ((useConnectionStatus pEmpty)\<lparr>clock := 1000, props := pAB\<rparr>)"
    by (simp add: model_defs pEmpty_def pAB_def)
  from empty_list_never_completes [OF p run] p run show ?thesis
    by (intro conjI) (simp_all only: simp_thms)
qed

subsection \<open>Without \<^verbatim>\<open>autoStart\<close>\<close>

lemma tasks_runConnection_RetryGate:
  "list_all retryTask (tasks s) \<Longrightarrow>
   list_all retryTask (tasks (runConnection index credentials RetryGate u s))"
  by (simp add: runConnection_def Let_def setConnections_fields split: option.splits)

lemma offInv_settleTask:
  assumes "retryTask t" and "settleTask t out s1 = Inr s'"
  shows "currentIndex s' = currentIndex s1 \<and> allComplete s' = allComplete s1 \<and>
         props s' = props s1 \<and> tasks s' = tasks s1"
  using assms by (cases t) (auto simp: connectSettled_Inr setConnections_fields)

lemma offInv_fireTask:
  assumes "retryTask t" and "fireTask t u s1 = Inr s'"
  shows "currentIndex s' = currentIndex s1 \<and> allComplete s' = allComplete s1 \<and>
         props s' = props s1 \<and> tasks s' = tasks s1"
  using assms
  by (cases t) (auto simp: fallbackDone_def setConnections_fields split: if_splits)

lemma list_all_take_drop:
  "list_all P xs \<Longrightarrow> list_all P (take n xs) \<and> list_all P (drop m xs)"
  by (auto simp: list_all_iff dest: in_set_takeD in_set_dropD)

lemma taskAt_list_all:
  "list_all P (tasks s) \<Longrightarrow> taskAt s n = Some t \<Longrightarrow> P t"
  by (auto simp: taskAt_def list_all_length split: if_splits)

lemma offInv_step:
  assumes inv: "offInv s" and ok: "keepsAutoStartOff e" and st: "step e s = Inr s'"
  shows "offInv s'"
proof (cases e)
  case (Retry index credentials u)
  with st have "s' = runConnection index credentials RetryGate u s"
    by (simp add: retryConnection_def)
  with inv show ?thesis
    by (simp add: offInv_def runConnection_fields tasks_runConnection_RetryGate)
next
  case (Settle n out)
  with st obtain t where t: "taskAt s n = Some t" and s': "settleTask t out (dropTask n s) = Inr s'"
    by (auto split: option.splits)
  from inv t have "retryTask t"
    unfolding offInv_def by (blast intro: taskAt_list_all)
  from offInv_settleTask [OF this s'] inv show ?thesis
    by (simp add: offInv_def dropTask_fields list_all_take_drop)
next
  case (Fire n u)
  with st obtain t where t: "taskAt s n = Some t" and s': "fireTask t u (dropTask n s) = Inr s'"
    by (auto split: option.splits)
  from inv t have "retryTask t"
    unfolding offInv_def by (blast intro: taskAt_list_all)
  from offInv_fireTask [OF this s'] inv show ?thesis
    by (simp add: offInv_def dropTask_fields list_all_take_drop)
next
  case (Advance d)
  with st have "s' = s\<lparr>clock := clock s + d\<rparr>"
    by (simp split: if_splits)
  with inv show ?thesis
    by (simp add: offInv_def)
next
  case (Rerender p u)
  with st have "s' = rerender p u s"
    by simp
  with inv ok Rerender show ?thesis
    by (simp add: offInv_def rerender_def)
qed

lemma untouched_step:
  assumes inv: "untouched s" and ok: "keepsAutoStartOff e \<and> \<not> isRetry e"
    and st: "step e s = Inr s'"
  shows "untouched s'"
proof -
  from inv ok st have off: "offInv s'"
    unfolding untouched_def by (blast intro: offInv_step)
  show ?thesis
  proof (cases e)
    case (Retry index credentials u)
    with ok show ?thesis by simp
  next
    case (Settle n out)
    with inv st show ?thesis
      by (simp add: untouched_def taskAt_def)
  next
    case (Fire n u)
    with inv st show ?thesis
      by (simp add: untouched_def taskAt_def)
  next
    case (Advance d)
    with st have "s' = s\<lparr>clock := clock s + d\<rparr>"
      by (simp split: if_splits)
    with inv off show ?thesis
      by (simp add: untouched_def)
  next
    case (Rerender p u)
    with st have "s' = rerender p u s"
      by simp
    moreover from inv have "\<not> autoStart (props s)"
      by (simp add: untouched_def offInv_def)
    ultimately have "s' = s\<lparr>props := p\<rparr>"
      using ok Rerender by (simp add: rerender_def)
    with inv off show ?thesis
      by (simp add: untouched_def)
  qed
qed

lemma untouched_mount: "\<not> autoStart p \<Longrightarrow> untouched (mount p u)"
  by (simp add: untouched_def offInv_def mount_def autoStartEffect_def useConnectionStatus_def
      list_all_iff)

text \<open>
  C10. When \<^verbatim>\<open>autoStart\<close> is false at mount and in every later render, the sequencer
  never starts: in every state reached \<open>currentIndex\<close> is \<open>-1\<close>, \<open>allComplete\<close> is
  false and every pending task was started by a retry. The caller's only operation is
  \<^verbatim>\<open>retryConnection\<close>: in a run without a retry every record stays pending, nothing is
  pending and no status is ever written.
\<close>

theorem autoStart_false_never_starts:
  assumes "\<not> autoStart p" and "exec es (mount p u) = Inr s"
    and "\<forall>e\<in>set es. keepsAutoStartOff e"
  shows "currentIndex s = - 1 \<and> \<not> allComplete s \<and> list_all retryTask (tasks s)
       \<and> ((\<forall>e\<in>set es. \<not> isRetry e) \<longrightarrow>
            list_all (\<lambda>c. status c = Pending) (connections s) \<and> tasks s = [] \<and> history s = [])"
proof -
  have start: "untouched (mount p u)"
    using assms(1) by (rule untouched_mount)
  then have "offInv (mount p u)"
    by (simp add: untouched_def)
  with assms(2) have "offInv s"
    using assms(3) by (rule exec_invariant) (rule offInv_step)
  moreover have "untouched s" if "\<forall>e\<in>set es. \<not> isRetry e"
  proof -
    from assms(3) that have "\<forall>e\<in>set es. keepsAutoStartOff e \<and> \<not> isRetry e"
      by blast
    with assms(2) start show ?thesis
      by (rule exec_invariant) (rule untouched_step)
  qed
  ultimately show ?thesis
    by (auto simp: offInv_def untouched_def)
qed

theorem autoStart_false_never_starts_witness:
  "\<not> autoStart pOff
   \<and> exec [Advance 5000, Rerender (pOff\<lparr>connectPlatform := False\<rparr>) 0] (mount pOff 0) = Inr idleOff
   \<and> list_all keepsAutoStartOff [Advance 5000, Rerender (pOff\<lparr>connectPlatform := False\<rparr>) 0]
   \<and> list_all (\<lambda>e. \<not> isRetry e) [Advance 5000, Rerender (pOff\<lparr>connectPlatform := False\<rparr>) 0]
   \<and> currentIndex idleOff = - 1 \<and> \<not> allComplete idleOff
   \<and> list_all (\<lambda>c. status c = Pending) (connections idleOff)
   \<and> exec [Advance 5000, Retry 0 None 0, Settle 0 (Resolves ResultSuccess)] (mount pOff 0) = Inr retriedOff
   \<and> list_all keepsAutoStartOff [Advance 5000, Retry 0 None 0, Settle 0 (Resolves ResultSuccess)]
   \<and> currentIndex retriedOff = - 1 \<and> \<not> allComplete retriedOff
   \<and> map status (connections retriedOff) = [Success, Pending]"
proof -
  let ?es1 = "[Advance 5000, Rerender (pOff\<lparr>connectPlatform := False\<rparr>) 0]"
  let ?es2 = "[Advance 5000, Retry 0 None 0, Settle 0 (Resolves ResultSuccess)]"
  have off: "\<not> autoStart pOff"
    by (simp add: pOff_def)
  have run1: "exec ?es1 (mount pOff 0) = Inr idleOff"
    by (simp add: model_defs pOff_def idleOff_def)
  have run2: "exec ?es2 (mount pOff 0) = Inr retriedOff"
    by (simp add: model_defs pOff_def retriedOff_def)
  have ok1: "\<forall>e\<in>set ?es1. keepsAutoStartOff e"
    by (simp add: pOff_def)
  have ok2: "\<forall>e\<in>set ?es2. keepsAutoStartOff e"
    by simp
  have nr1: "\<forall>e\<in>set ?es1. \<not> isRetry e"
    by simp
  note i1 = autoStart_false_never_starts [OF off run1 ok1]
  note i2 = autoStart_false_never_starts [OF off run2 ok2]
  have a1: "currentIndex idleOff = - 1" and a2: "\<not> allComplete idleOff"
    using i1 by blast+
  have a3: "list_all (\<lambda>c. status c = Pending) (connections idleOff)"
    using i1 nr1 by blast
  have b1: "currentIndex retriedOff = - 1" and b2: "\<not> allComplete retriedOff"
    using i2 by blast+
  have b3: "map status (connections retriedOff) = [Success, Pending]"
    by (simp add: retriedOff_def)
  have l1: "list_all keepsAutoStartOff ?es1" and l2: "list_all (\<lambda>e. \<not> isRetry e) ?es1"
    and l3: "list_all keepsAutoStartOff ?es2"
    by (simp_all add: pOff_def)
  show ?thesis
    using off run1 run2 a1 a2 a3 b1 b2 b3 l1 l2 l3
    by (intro conjI) (simp_all only: simp_thms)
qed

subsection \<open>Pending tasks stay pending\<close>

lemma tasks_mono_resume: "set (tasks s) \<subseteq> set (tasks (resume who i s))"
  by (cases who) (auto simp: moveToNext_def)

lemma tasks_mono_runConnection:
  "set (tasks s) \<subseteq> set (tasks (runConnection index credentials who u s))"
  using tasks_mono_resume [of s who index]
  by (auto simp: runConnection_def Let_def setConnections_fields split: option.splits)

lemma tasks_mono_setCurrentIndex: "set (tasks s) \<subseteq> set (tasks (setCurrentIndex k u s))"
  using tasks_mono_runConnection [of "s\<lparr>currentIndex := k\<rparr>" k None Sequencer u]
  by (auto simp: setCurrentIndex_def sequencerEffect_def)

lemma tasks_mono_autoStartEffect: "set (tasks s) \<subseteq> set (tasks (autoStartEffect u s))"
  using tasks_mono_setCurrentIndex [of s 0 u]
  by (auto simp: autoStartEffect_def)

lemma tasks_mono_rerender: "set (tasks s) \<subseteq> set (tasks (rerender p u s))"
  using tasks_mono_autoStartEffect [of "s\<lparr>props := p\<rparr>" u]
  by (auto simp: rerender_def)

lemma in_set_dropTask:
  assumes "t \<in> set (tasks s)"
  shows "t \<in> set (tasks (dropTask n s)) \<or> taskAt s n = Some t"
proof -
  from assms obtain m where m: "m < length (tasks s)" "tasks s ! m = t"
    by (auto simp: in_set_conv_nth)
  consider "m < n" | "m = n" | "n < m"
    by linarith
  then show ?thesis
  proof cases
    case 1
    with m have "t \<in> set (take n (tasks s))"
      by (auto simp: in_set_conv_nth intro!: exI [of _ m])
    then show ?thesis
      by (simp add: dropTask_fields)
  next
    case 2
    with m show ?thesis
      by (simp add: taskAt_def)
  next
    case 3
    then obtain j where j: "m = Suc n + j"
      by (metis less_iff_Suc_add add_Suc)
    with m have "j < length (drop (Suc n) (tasks s))" "drop (Suc n) (tasks s) ! j = t"
      by simp_all
    then have "t \<in> set (drop (Suc n) (tasks s))"
      by (metis nth_mem)
    then show ?thesis
      by (simp add: dropTask_fields)
  qed
qed

lemma tasks_mono_settleTask:
  "settleTask t out s = Inr s' \<Longrightarrow> set (tasks s) \<subseteq> set (tasks s')"
proof (cases t)
  case (Awaiting i pid credentials who)
  define r where "r = (case out of Resolves x \<Rightarrow> statusOf x | Rejects \<Rightarrow> Error)"
  assume "settleTask t out s = Inr s'"
  with Awaiting have "s' = resume who i (setConnections i r s)"
    by (simp add: connectSettled_Inr r_def)
  moreover have "tasks (setConnections i r s) = tasks s"
    by (simp add: setConnections_fields)
  ultimately show ?thesis
    using tasks_mono_resume [of "setConnections i r s" who i] by simp
qed simp_all

lemma tasks_mono_fireTask:
  "fireTask t u s = Inr s' \<Longrightarrow> set (tasks s) \<subseteq> set (tasks s')"
proof (cases t)
  case (Sleeping i due who)
  assume "fireTask t u s = Inr s'"
  with Sleeping have "s' = resume who i (fallbackDone i u s)"
    by (simp split: if_splits)
  moreover have "tasks (fallbackDone i u s) = tasks s"
    by (simp add: fallbackDone_def setConnections_fields)
  ultimately show ?thesis
    using tasks_mono_resume [of "fallbackDone i u s" who i] by simp
next
  case (AdvanceTimer k due)
  assume "fireTask t u s = Inr s'"
  with AdvanceTimer have "s' = setCurrentIndex k u s"
    by (simp split: if_splits)
  then show ?thesis
    by (simp add: tasks_mono_setCurrentIndex)
next
  case (CompleteTimer due)
  assume "fireTask t u s = Inr s'"
  with CompleteTimer have "s' = setAllComplete True s"
    by (simp split: if_splits)
  then show ?thesis
    by (simp add: setAllComplete_def)
qed simp

text \<open>A pending task stays pending until its own promise settles or its own timer fires.\<close>

lemma task_persists:
  assumes t: "t \<in> set (tasks s)" and st: "step e s = Inr s'"
  shows "t \<in> set (tasks s') \<or> (\<exists>n v. e = Fire n v \<and> taskAt s n = Some t)
       \<or> (\<exists>n out. e = Settle n out \<and> taskAt s n = Some t)"
proof (cases e)
  case (Retry index credentials u)
  with st have "s' = runConnection index credentials RetryGate u s"
    by (simp add: retryConnection_def)
  with t tasks_mono_runConnection show ?thesis
    by blast
next
  case (Settle n out)
  with st obtain t0 where t0: "taskAt s n = Some t0" "settleTask t0 out (dropTask n s) = Inr s'"
    by (auto split: option.splits)
  from in_set_dropTask [OF t, of n] show ?thesis
  proof
    assume "t \<in> set (tasks (dropTask n s))"
    with tasks_mono_settleTask [OF t0(2)] show ?thesis
      by blast
  next
    assume "taskAt s n = Some t"
    with Settle show ?thesis
      by blast
  qed
next
  case (Fire n u)
  with st obtain t0 where t0: "taskAt s n = Some t0" "fireTask t0 u (dropTask n s) = Inr s'"
    by (auto split: option.splits)
  from in_set_dropTask [OF t, of n] show ?thesis
  proof
    assume "t \<in> set (tasks (dropTask n s))"
    with tasks_mono_fireTask [OF t0(2)] show ?thesis
      by blast
  next
    assume "taskAt s n = Some t"
    with Fire show ?thesis
      by blast
  qed
next
  case (Advance d)
  with st have "s' = s\<lparr>clock := clock s + d\<rparr>"
    by (simp split: if_splits)
  with t show ?thesis
    by simp
next
  case (Rerender p u)
  with st have "s' = rerender p u s"
    by simp
  with t tasks_mono_rerender show ?thesis
    by blast
qed

subsection \<open>Rounding to binary64\<close>

lemma roundEven_ge:
  assumes "of_int m \<le> q"
  shows "m \<le> roundEven q"
proof -
  have "m \<le> \<lfloor>q\<rfloor>"
    using assms by (simp add: le_floor_iff)
  then show ?thesis
    by (simp add: roundEven_def Let_def)
qed

lemma roundEven_le:
  assumes "q \<le> of_int m"
  shows "roundEven q \<le> m"
proof -
  have f: "\<lfloor>q\<rfloor> \<le> m"
    using assms by (simp add: floor_le_iff)
  show ?thesis
  proof (cases "q = of_int \<lfloor>q\<rfloor>")
    case True
    then have "q - of_int \<lfloor>q\<rfloor> < 1 / 2"
      by simp
    then show ?thesis
      using f by (simp add: roundEven_def Let_def)
  next
    case False
    moreover have "of_int \<lfloor>q\<rfloor> \<le> q"
      by (rule of_int_floor_le)
    ultimately have "of_int \<lfloor>q\<rfloor> < q"
      by (metis less_le)
    with assms have "of_int \<lfloor>q\<rfloor> < (of_int m :: real)"
      by linarith
    then have "\<lfloor>q\<rfloor> < m"
      by simp
    then show ?thesis
      by (simp add: roundEven_def Let_def)
  qed
qed

lemma roundEven_error: "\<bar>of_int (roundEven q) - q\<bar> \<le> 1 / 2"
proof -
  have "of_int \<lfloor>q\<rfloor> \<le> q" and "q < of_int \<lfloor>q\<rfloor> + 1"
    by linarith+
  then show ?thesis
    by (auto simp: roundEven_def Let_def abs_le_iff)
qed

lemma ulp64_pos: "0 < ulp64 x"
  by (simp add: ulp64_def)

lemma exponent64_le:
  assumes "0 < x" and "x < 2 powr (of_int k + 1)" and "- 1022 \<le> k"
  shows "exponent64 x \<le> k"
proof -
  have "log 2 x < of_int k + 1"
    using assms(1,2) by (simp add: log_less_iff)
  then have "\<lfloor>log 2 x\<rfloor> \<le> k"
    by (simp add: floor_le_iff)
  with assms show ?thesis
    by (simp add: exponent64_def)
qed

lemma exponent64_eq:
  assumes "0 < x" and "2 powr (of_int k) \<le> x" and "x < 2 powr (of_int k + 1)" and "- 1022 \<le> k"
  shows "exponent64 x = k"
proof -
  have "\<lfloor>log 2 x\<rfloor> = k"
    using assms by (simp add: floor_log_eq_powr_iff)
  with assms show ?thesis
    by (simp add: exponent64_def)
qed

text \<open>An integer is a whole number of units in the last place of any \<open>x\<close> below \<open>2^53\<close>.\<close>

lemma int_multiple_ulp64:
  assumes "exponent64 x \<le> 52"
  shows "\<exists>m::int. of_int K = of_int m * ulp64 x"
proof -
  define n where "n = nat (52 - exponent64 x)"
  have "real n = 52 - of_int (exponent64 x)"
    using assms by (simp add: n_def)
  then have "ulp64 x = 2 powr (- real n)"
    by (simp add: ulp64_def)
  also have "\<dots> = 1 / 2 ^ n"
    by (simp add: powr_minus powr_realpow inverse_eq_divide)
  finally have "of_int (K * 2 ^ n) * ulp64 x = of_int K"
    by simp
  then show ?thesis
    by metis
qed

lemma binary64_pos:
  assumes "0 < x"
  shows "binary64 x = of_int (roundEven (x / ulp64 x)) * ulp64 x"
  using assms by (simp add: binary64_def)

lemma binary64_le_int:
  assumes x: "0 < x" "x \<le> of_int K" and e: "exponent64 x \<le> 52"
  shows "binary64 x \<le> of_int K"
proof -
  obtain m :: int where m: "of_int K = of_int m * ulp64 x"
    using int_multiple_ulp64 [OF e] by blast
  have "x / ulp64 x \<le> of_int m"
    using x(2) ulp64_pos [of x] by (simp add: m pos_divide_le_eq)
  then have "roundEven (x / ulp64 x) \<le> m"
    by (rule roundEven_le)
  then have "of_int (roundEven (x / ulp64 x)) * ulp64 x \<le> of_int m * ulp64 x"
    using ulp64_pos [of x] by (simp add: mult_right_mono)
  then show ?thesis
    using x(1) by (simp add: binary64_pos m)
qed

lemma binary64_ge_int:
  assumes x: "0 < x" "of_int K \<le> x" and e: "exponent64 x \<le> 52"
  shows "of_int K \<le> binary64 x"
proof -
  obtain m :: int where m: "of_int K = of_int m * ulp64 x"
    using int_multiple_ulp64 [OF e] by blast
  have "of_int m \<le> x / ulp64 x"
    using x(2) ulp64_pos [of x] by (simp add: m pos_le_divide_eq)
  then have "m \<le> roundEven (x / ulp64 x)"
    by (rule roundEven_ge)
  then have "of_int m * ulp64 x \<le> of_int (roundEven (x / ulp64 x)) * ulp64 x"
    using ulp64_pos [of x] by (simp add: mult_right_mono)
  then show ?thesis
    using x(1) by (simp add: binary64_pos m)
qed

lemma binary64_error:
  assumes "0 < x"
  shows "\<bar>binary64 x - x\<bar> \<le> ulp64 x / 2"
proof -
  have "\<bar>of_int (roundEven (x / ulp64 x)) - x / ulp64 x\<bar> * ulp64 x \<le> 1 / 2 * ulp64 x"
    using roundEven_error [of "x / ulp64 x"] ulp64_pos [of x] by (simp add: mult_right_mono)
  moreover have "\<bar>of_int (roundEven (x / ulp64 x)) - x / ulp64 x\<bar> * ulp64 x
      = \<bar>of_int (roundEven (x / ulp64 x)) * ulp64 x - x\<bar>"
  proof -
    have "\<bar>of_int (roundEven (x / ulp64 x)) - x / ulp64 x\<bar> * ulp64 x
        = \<bar>(of_int (roundEven (x / ulp64 x)) - x / ulp64 x) * ulp64 x\<bar>"
      using ulp64_pos [of x] by (simp add: abs_mult)
    also have "(of_int (roundEven (x / ulp64 x)) - x / ulp64 x) * ulp64 x
        = of_int (roundEven (x / ulp64 x)) * ulp64 x - x"
      using ulp64_pos [of x] by (simp add: left_diff_distrib)
    finally show ?thesis .
  qed
  ultimately show ?thesis
    using assms by (simp add: binary64_pos)
qed

lemma ulp64_le:
  assumes "exponent64 x \<le> k"
  shows "ulp64 x \<le> 2 powr (of_int k - 52)"
  using assms by (simp add: ulp64_def)

lemma binary64_binade:
  assumes "0 < x" and "2 powr (of_int k) \<le> x" and "x < 2 powr (of_int k + 1)"
    and "- 1022 \<le> k" and "k \<le> 52"
  shows "binary64 x = of_int (roundEven (x * 2 ^ nat (52 - k))) / 2 ^ nat (52 - k)"
proof -
  have e: "exponent64 x = k"
    using assms(1-4) by (rule exponent64_eq)
  define n where "n = nat (52 - k)"
  have "real n = 52 - of_int k"
    using assms(5) by (simp add: n_def)
  then have "ulp64 x = 2 powr (- real n)"
    by (simp add: ulp64_def e)
  also have "\<dots> = 1 / 2 ^ n"
    by (simp add: powr_minus powr_realpow inverse_eq_divide)
  finally have "ulp64 x = 1 / 2 ^ n" .
  then show ?thesis
    using assms(1) by (simp add: binary64_pos n_def)
qed

lemma roundEven_int: "roundEven (of_int m) = m"
  by (simp add: roundEven_def)

lemma binary64_0: "binary64 0 = 0"
  by (simp add: binary64_def)

lemma binary64_750: "binary64 750 = 750"
proof -
  have "binary64 750 = of_int (roundEven (750 * 2 ^ nat (52 - 9))) / 2 ^ nat (52 - 9)"
    by (rule binary64_binade) simp_all
  also have "(750::real) * 2 ^ nat (52 - 9) = of_int (750 * 2 ^ 43)"
    by simp
  finally show ?thesis
    by (simp only: roundEven_int) simp
qed

lemma roundEven_up:
  assumes "of_int f + 1 / 2 < q" and "q < of_int f + 1"
  shows "roundEven q = f + 1"
proof -
  have "\<lfloor>q\<rfloor> = f"
    using assms by (intro floor_unique) linarith+
  then show ?thesis
    using assms by (simp add: roundEven_def)
qed

lemma roundEven_down:
  assumes "of_int f \<le> q" and "q < of_int f + 1 / 2"
  shows "roundEven q = f"
proof -
  have "\<lfloor>q\<rfloor> = f"
    using assms by (intro floor_unique) linarith+
  then show ?thesis
    using assms by (simp add: roundEven_def)
qed

lemma roundEven_tie:
  assumes "q = of_int f + 1 / 2"
  shows "roundEven q = (if even f then f else f + 1)"
proof -
  have "\<lfloor>q\<rfloor> = f"
    using assms by (intro floor_unique) linarith+
  then show ?thesis
    using assms by (simp add: roundEven_def)
qed

lemma binary64_maxDraw_product: "binary64 (maxDraw * 1500) = 1500 - 1 / 2 ^ 42"
proof -
  have x: "maxDraw * 1500 = 1688849860263935625 / 1125899906842624"
    by (simp add: maxDraw_def)
  have "binary64 (maxDraw * 1500)
      = of_int (roundEven (maxDraw * 1500 * 2 ^ nat (52 - 10))) / 2 ^ nat (52 - 10)"
    by (rule binary64_binade) (simp_all add: x)
  also have "maxDraw * 1500 * 2 ^ nat (52 - 10) = 1688849860263935625 / 256"
    by (simp add: x)
  also have "roundEven (1688849860263935625 / 256) = 6597069766655998 + 1"
    by (rule roundEven_up) simp_all
  finally show ?thesis
    by simp
qed

lemma binary64_below_3000: "binary64 (1500 + (1500 - 1 / 2 ^ 42)) = 3000"
proof -
  have x: "(1500::real) + (1500 - 1 / 2 ^ 42) = 13194139533311999 / 4398046511104"
    by simp
  have "binary64 (1500 + (1500 - 1 / 2 ^ 42))
      = of_int (roundEven ((1500 + (1500 - 1 / 2 ^ 42)) * 2 ^ nat (52 - 11))) / 2 ^ nat (52 - 11)"
    by (rule binary64_binade) (simp_all add: x)
  also have "((1500::real) + (1500 - 1 / 2 ^ 42)) * 2 ^ nat (52 - 11)
      = of_int 6597069766655999 + 1 / 2"
    by simp
  also have "roundEven (of_int 6597069766655999 + 1 / 2)
      = (if even (6597069766655999::int) then 6597069766655999 else 6597069766655999 + 1)"
    by (rule roundEven_tie) simp
  finally show ?thesis
    by simp
qed

lemma fallbackDelay_maxDraw: "fallbackDelay maxDraw = 3000"
  by (simp only: fallbackDelay_def binary64_maxDraw_product binary64_below_3000)

lemma binary64_tenth: "binary64 (1 / 10) = 3602879701896397 / 36028797018963968"
proof -
  have "binary64 (1 / 10)
      = of_int (roundEven (1 / 10 * 2 ^ nat (52 - (- 4)))) / 2 ^ nat (52 - (- 4))"
    by (rule binary64_binade) (simp_all add: powr_minus)
  also have "(1::real) / 10 * 2 ^ nat (52 - (- 4)) = 36028797018963968 / 5"
    by simp
  also have "roundEven (36028797018963968 / 5) = 7205759403792793 + 1"
    by (rule roundEven_up) simp_all
  finally show ?thesis
    by simp
qed

lemma binary64_1500: "binary64 1500 = 1500"
proof -
  have "binary64 1500 = of_int (roundEven (1500 * 2 ^ nat (52 - 10))) / 2 ^ nat (52 - 10)"
    by (rule binary64_binade) simp_all
  also have "(1500::real) * 2 ^ nat (52 - 10) = of_int (1500 * 2 ^ 42)"
    by simp
  finally show ?thesis
    by (simp only: roundEven_int) simp
qed

lemma binary64_2250: "binary64 2250 = 2250"
proof -
  have "binary64 2250 = of_int (roundEven (2250 * 2 ^ nat (52 - 11))) / 2 ^ nat (52 - 11)"
    by (rule binary64_binade) simp_all
  also have "(2250::real) * 2 ^ nat (52 - 11) = of_int (2250 * 2 ^ 41)"
    by simp
  finally show ?thesis
    by (simp only: roundEven_int) simp
qed

lemma fallbackDelay_0: "fallbackDelay 0 = 1500"
  by (simp add: fallbackDelay_def binary64_0 binary64_1500)

lemma fallbackDelay_half: "fallbackDelay (1 / 2) = 2250"
  by (simp add: fallbackDelay_def binary64_750 binary64_2250)

lemma binary64_maxDraw: "binary64 maxDraw = maxDraw"
proof -
  have "binary64 maxDraw = of_int (roundEven (maxDraw * 2 ^ nat (52 - (- 1)))) / 2 ^ nat (52 - (- 1))"
    by (rule binary64_binade) (simp_all add: maxDraw_def powr_minus)
  also have "maxDraw * 2 ^ nat (52 - (- 1)) = of_int (2 ^ 53 - 2)"
    by (simp add: maxDraw_def)
  finally show ?thesis
    by (simp only: roundEven_int) (simp add: maxDraw_def)
qed

lemma binary64_product_range:
  assumes "0 \<le> u" and "u < 1"
  shows "0 \<le> binary64 (u * 1500)" and "binary64 (u * 1500) \<le> 1500"
    and "\<bar>binary64 (u * 1500) - u * 1500\<bar> \<le> 1 / 2 ^ 43"
proof -
  have "0 \<le> binary64 (u * 1500) \<and> binary64 (u * 1500) \<le> 1500
      \<and> \<bar>binary64 (u * 1500) - u * 1500\<bar> \<le> 1 / 2 ^ 43"
  proof (cases "u = 0")
    case True
    then show ?thesis
      by (simp add: binary64_0)
  next
    case False
    with assms have x: "0 < u * 1500" "u * 1500 < 2 powr (of_int 10 + 1)"
      by simp_all
    then have e: "exponent64 (u * 1500) \<le> 10"
      by (rule exponent64_le) simp
    then have e52: "exponent64 (u * 1500) \<le> 52"
      by simp
    have "of_int 0 \<le> binary64 (u * 1500)"
      using x(1) _ e52 by (rule binary64_ge_int) (use x(1) in simp)
    then have a: "0 \<le> binary64 (u * 1500)"
      by simp
    have "binary64 (u * 1500) \<le> of_int 1500"
      using x(1) _ e52 by (rule binary64_le_int) (use assms in simp)
    then have b: "binary64 (u * 1500) \<le> 1500"
      by simp
    have "ulp64 (u * 1500) \<le> 2 powr (of_int 10 - 52)"
      using e by (rule ulp64_le)
    also have "\<dots> = 1 / 2 ^ 42"
      by (simp add: powr_minus inverse_eq_divide)
    finally have "ulp64 (u * 1500) / 2 \<le> 1 / 2 ^ 43"
      by simp
    with binary64_error [OF x(1)] have "\<bar>binary64 (u * 1500) - u * 1500\<bar> \<le> 1 / 2 ^ 43"
      by linarith
    with a b show ?thesis
      by blast
  qed
  then show "0 \<le> binary64 (u * 1500)" and "binary64 (u * 1500) \<le> 1500"
    and "\<bar>binary64 (u * 1500) - u * 1500\<bar> \<le> 1 / 2 ^ 43"
    by blast+
qed

lemma binary64_sum_range:
  assumes "0 \<le> r" and "r \<le> 1500"
  shows "1500 \<le> binary64 (1500 + r)" and "binary64 (1500 + r) \<le> 3000"
    and "\<bar>binary64 (1500 + r) - (1500 + r)\<bar> \<le> 1 / 2 ^ 42"
proof -
  from assms have x: "0 < 1500 + r" "1500 + r < 2 powr (of_int 11 + 1)"
    by simp_all
  then have e: "exponent64 (1500 + r) \<le> 11"
    by (rule exponent64_le) simp
  then have e52: "exponent64 (1500 + r) \<le> 52"
    by simp
  have "of_int 1500 \<le> binary64 (1500 + r)"
    using x(1) _ e52 by (rule binary64_ge_int) (use assms in simp)
  then show "1500 \<le> binary64 (1500 + r)"
    by simp
  have "binary64 (1500 + r) \<le> of_int 3000"
    using x(1) _ e52 by (rule binary64_le_int) (use assms in simp)
  then show "binary64 (1500 + r) \<le> 3000"
    by simp
  have "ulp64 (1500 + r) \<le> 2 powr (of_int 11 - 52)"
    using e by (rule ulp64_le)
  also have "\<dots> = 1 / 2 ^ 41"
    by (simp add: powr_minus inverse_eq_divide)
  finally have "ulp64 (1500 + r) / 2 \<le> 1 / 2 ^ 42"
    by simp
  with binary64_error [OF x(1)] show "\<bar>binary64 (1500 + r) - (1500 + r)\<bar> \<le> 1 / 2 ^ 42"
    by linarith
qed

lemma fallbackDelay_range:
  assumes "0 \<le> u" and "u < 1"
  shows "1500 \<le> fallbackDelay u" and "fallbackDelay u \<le> 3000"
    and "\<bar>fallbackDelay u - (1500 + u * 1500)\<bar> \<le> 1 / 2 ^ 41"
proof -
  note p = binary64_product_range [OF assms]
  note s = binary64_sum_range [OF p(1,2)]
  show "1500 \<le> fallbackDelay u" and "fallbackDelay u \<le> 3000"
    using s(1,2) by (simp_all add: fallbackDelay_def)
  have "\<bar>fallbackDelay u - (1500 + u * 1500)\<bar>
      \<le> \<bar>binary64 (1500 + binary64 (u * 1500)) - (1500 + binary64 (u * 1500))\<bar>
        + \<bar>binary64 (u * 1500) - u * 1500\<bar>"
    unfolding fallbackDelay_def by linarith
  also have "\<dots> \<le> 1 / 2 ^ 42 + 1 / 2 ^ 43"
    using s(3) p(3) by linarith
  also have "\<dots> \<le> 1 / 2 ^ 41"
    by simp
  finally show "\<bar>fallbackDelay u - (1500 + u * 1500)\<bar> \<le> 1 / 2 ^ 41" .
qed

lemma fallbackSuccess_interval:
  "{v. 0 \<le> v \<and> v < 1 \<and> fallbackSuccess v} = {binary64 (1 / 10) <..< 1}"
  "{v. 0 \<le> v \<and> v < 1 \<and> \<not> fallbackSuccess v} = {0 .. binary64 (1 / 10)}"
  "binary64 (1 / 10) = 1 / 10 + 1 / (5 * 2 ^ 55)"
  by (auto simp: fallbackSuccess_def binary64_tenth)

subsection \<open>The fallback attempt\<close>

lemma fallbackSuccess_half: "fallbackSuccess (1 / 2)"
  by (simp add: fallbackSuccess_def binary64_tenth)

lemma fire_sleeping:
  assumes t: "taskAt s2 n = Some (Sleeping index due who)"
    and idx: "0 \<le> index" "index < int (length (connections s2))"
  shows "clock s2 < due \<longrightarrow> step (Fire n v) s2 = Inl NotEnabled"
    and "due \<le> clock s2 \<longrightarrow>
          (\<exists>s3. step (Fire n v) s2 = Inr s3 \<and> clock s3 = clock s2
             \<and> status (connections s3 ! nat index) = (if fallbackSuccess v then Success else Error))"
proof -
  show "clock s2 < due \<longrightarrow> step (Fire n v) s2 = Inl NotEnabled"
    using t by (simp add: dropTask_fields)
  have "nat index < length (connections s2)" and "int (nat index) = index"
    using idx by simp_all
  then have "status (connections (resume who index (fallbackDone index v (dropTask n s2))) ! nat index)
      = (if fallbackSuccess v then Success else Error)"
    by (simp add: resume_fields fallbackDone_def setConnections_fields dropTask_fields
        nth_setStatus)
  moreover have "clock (resume who index (fallbackDone index v (dropTask n s2))) = clock s2"
    by (simp add: resume_fields fallbackDone_def setConnections_fields dropTask_fields)
  ultimately show "due \<le> clock s2 \<longrightarrow>
          (\<exists>s3. step (Fire n v) s2 = Inr s3 \<and> clock s3 = clock s2
             \<and> status (connections s3 ! nat index) = (if fallbackSuccess v then Success else Error))"
    using t by (simp add: dropTask_fields)
qed

text \<open>
  The delay is not always below \<open>3000\<close>. For the draw \<open>1 - 2^-52\<close>, a binary64 number in
  \<open>[0, 1)\<close>, the product \<open>u * 1500\<close> rounds to \<open>1500 - 2^-42\<close>, and \<open>1500 + (1500 - 2^-42)\<close>
  lies halfway between the binary64 numbers \<open>3000 - 2^-41\<close> and \<open>3000\<close> and rounds to
  \<open>3000\<close>, whose significand is even: the hook sets its timer for exactly \<open>3000\<close>.
\<close>

theorem fallback_delay_counterexample:
  "0 \<le> maxDraw \<and> maxDraw < 1 \<and> binary64 maxDraw = maxDraw
   \<and> binary64 (maxDraw * 1500) = 1500 - 1 / 2 ^ 42
   \<and> fallbackDelay maxDraw = 3000
   \<and> \<not> fallbackDelay maxDraw < 3000
   \<and> tasks (mount pMock maxDraw) = [Sleeping 0 3000 Sequencer]"
proof -
  have a: "0 \<le> maxDraw" and b: "maxDraw < 1"
    by (simp_all add: maxDraw_def)
  have c: "\<not> fallbackDelay maxDraw < 3000"
    by (simp add: fallbackDelay_maxDraw)
  have d: "tasks (mount pMock maxDraw) = [Sleeping 0 3000 Sequencer]"
    by (simp add: model_defs pMock_def fallbackDelay_maxDraw)
  show ?thesis
    using a b binary64_maxDraw binary64_maxDraw_product fallbackDelay_maxDraw c d
    by (intro conjI) assumption+
qed

text \<open>
  C9 (amended). With no connector supplied, an attempt on a record (of the sequencer or
  of a retry; \<^verbatim>\<open>runConnection\<close> past its guard, so the index is in the ledger and the
  platform id is not empty) sets it connecting and sets a timer due after
  \<open>fallbackDelay u\<close>, the binary64 value of \<^verbatim>\<open>1500 + u * 1500\<close> for a draw \<open>u\<close> of
  \<^verbatim>\<open>Math.random()\<close> in \<open>[0, 1)\<close>. The delay lies in \<open>[1500, 3000]\<close>, both ends included
  (\<open>1500\<close> at the draw \<open>0\<close>, \<open>3000\<close> at the draw \<open>1 - 2^-52\<close>), and differs from the exact
  \<open>1500 + 1500 u\<close> by at most \<open>2^-41\<close>, so it varies with the draw. The timer cannot
  fire before it is due; it stays pending through every other step; once due it fires
  and writes \<open>Success\<close> when the second draw is above the binary64 number \<^verbatim>\<open>0.1\<close>, which
  is \<open>1/10 + 1/(5 * 2^55)\<close>, and \<open>Error\<close> otherwise, so the record ends in a terminal
  status. The draws that give success are the interval from that number to \<open>1\<close>, nine
  tenths of \<open>[0, 1)\<close> up to the rounding of \<^verbatim>\<open>0.1\<close>; the other draws give an error.
\<close>

theorem fallback_attempt_terminates:
  assumes noConn: "\<not> connectPlatform (props s)"
    and idx: "0 \<le> index" "index < int (length (connections s))"
    and pid: "platformId (connections s ! nat index) \<noteq> []"
    and draw: "0 \<le> u" "u < 1"
  shows "tasks (runConnection index credentials who u s) =
           tasks s @ [Sleeping index (clock s + fallbackDelay u) who]
       \<and> status (connections (runConnection index credentials who u s) ! nat index) = Connecting
       \<and> fallbackDelay u = binary64 (1500 + binary64 (u * 1500))
       \<and> 1500 \<le> fallbackDelay u \<and> fallbackDelay u \<le> 3000
       \<and> \<bar>fallbackDelay u - (1500 + u * 1500)\<bar> \<le> 1 / 2 ^ 41
       \<and> fallbackDelay 0 = 1500 \<and> fallbackDelay (1 - 1 / 2 ^ 52) = 3000
       \<and> (\<forall>s2 n v. taskAt s2 n = Some (Sleeping index (clock s + fallbackDelay u) who)
              \<and> length (connections s2) = length (connections s) \<longrightarrow>
            (clock s2 < clock s + fallbackDelay u \<longrightarrow> step (Fire n v) s2 = Inl NotEnabled)
            \<and> (clock s + fallbackDelay u \<le> clock s2 \<longrightarrow>
                 (\<exists>s3. step (Fire n v) s2 = Inr s3 \<and> clock s3 = clock s2
                    \<and> status (connections s3 ! nat index) =
                        (if binary64 (1 / 10) < v then Success else Error))))
       \<and> (\<forall>s2 e s3. Sleeping index (clock s + fallbackDelay u) who \<in> set (tasks s2)
              \<and> step e s2 = Inr s3 \<longrightarrow>
            Sleeping index (clock s + fallbackDelay u) who \<in> set (tasks s3)
            \<or> (\<exists>n v. e = Fire n v
                  \<and> taskAt s2 n = Some (Sleeping index (clock s + fallbackDelay u) who)))
       \<and> {v. 0 \<le> v \<and> v < 1 \<and> fallbackSuccess v} = {binary64 (1 / 10) <..< 1}
       \<and> {v. 0 \<le> v \<and> v < 1 \<and> \<not> fallbackSuccess v} = {0 .. binary64 (1 / 10)}
       \<and> binary64 (1 / 10) = 1 / 10 + 1 / (5 * 2 ^ 55)"
proof -
  let ?due = "clock s + fallbackDelay u"
  let ?t = "Sleeping index ?due who"
  have jn: "nat index < length (connections s)" and jj: "int (nat index) = index"
    using idx by simp_all
  have a: "tasks (runConnection index credentials who u s) = tasks s @ [?t]"
    using noConn idx pid
    by (simp add: runConnection_def element_def Let_def setConnections_fields)
  have b: "status (connections (runConnection index credentials who u s) ! nat index) = Connecting"
    using pid jn by (simp add: connections_runConnection nth_setStatus idx jj)
  have c: "\<forall>s2 n v. taskAt s2 n = Some ?t \<and> length (connections s2) = length (connections s) \<longrightarrow>
            (clock s2 < ?due \<longrightarrow> step (Fire n v) s2 = Inl NotEnabled)
            \<and> (?due \<le> clock s2 \<longrightarrow>
                 (\<exists>s3. step (Fire n v) s2 = Inr s3 \<and> clock s3 = clock s2
                    \<and> status (connections s3 ! nat index) =
                        (if binary64 (1 / 10) < v then Success else Error)))"
  proof (intro allI impI)
    fix s2 n v
    assume h: "taskAt s2 n = Some ?t \<and> length (connections s2) = length (connections s)"
    then have "index < int (length (connections s2))"
      using idx by simp
    with h idx(1) have "(clock s2 < ?due \<longrightarrow> step (Fire n v) s2 = Inl NotEnabled)
            \<and> (?due \<le> clock s2 \<longrightarrow>
                 (\<exists>s3. step (Fire n v) s2 = Inr s3 \<and> clock s3 = clock s2
                    \<and> status (connections s3 ! nat index) =
                        (if fallbackSuccess v then Success else Error)))"
      using fire_sleeping [of s2 n index ?due who v] by blast
    moreover have "fallbackSuccess v = (binary64 (1 / 10) < v)"
      by (simp add: fallbackSuccess_def)
    ultimately show "(clock s2 < ?due \<longrightarrow> step (Fire n v) s2 = Inl NotEnabled)
            \<and> (?due \<le> clock s2 \<longrightarrow>
                 (\<exists>s3. step (Fire n v) s2 = Inr s3 \<and> clock s3 = clock s2
                    \<and> status (connections s3 ! nat index) =
                        (if binary64 (1 / 10) < v then Success else Error)))"
      by simp
  qed
  have d: "\<forall>s2 e s3. ?t \<in> set (tasks s2) \<and> step e s2 = Inr s3 \<longrightarrow>
            ?t \<in> set (tasks s3) \<or> (\<exists>n v. e = Fire n v \<and> taskAt s2 n = Some ?t)"
  proof (intro allI impI)
    fix s2 e s3
    assume h: "?t \<in> set (tasks s2) \<and> step e s2 = Inr s3"
    then have "?t \<in> set (tasks s3) \<or> (\<exists>n v. e = Fire n v \<and> taskAt s2 n = Some ?t)
       \<or> (\<exists>n out. e = Settle n out \<and> taskAt s2 n = Some ?t)"
      using task_persists [of ?t s2 e s3] by blast
    moreover have False if "e = Settle n out" "taskAt s2 n = Some ?t" for n out
      using that h by simp
    ultimately show "?t \<in> set (tasks s3) \<or> (\<exists>n v. e = Fire n v \<and> taskAt s2 n = Some ?t)"
      by blast
  qed
  have f: "fallbackDelay u = binary64 (1500 + binary64 (u * 1500))"
    by (simp add: fallbackDelay_def)
  have g: "fallbackDelay (1 - 1 / 2 ^ 52) = 3000"
    using fallbackDelay_maxDraw by (simp add: maxDraw_def)
  note e = fallbackDelay_range [OF draw] fallbackDelay_0 g
  show ?thesis
    using a b c d f e fallbackSuccess_interval by (intro conjI) assumption+
qed

theorem fallback_attempt_terminates_witness:
  "\<not> connectPlatform (props startedMock)
   \<and> (0::int) < int (length (connections startedMock))
   \<and> platformId (connections startedMock ! nat 0) = ''A''
   \<and> (0::real) \<le> 1 / 2 \<and> (1 / 2::real) < 1
   \<and> runConnection 0 None Sequencer (1 / 2) startedMock = mount pMock (1 / 2)
   \<and> tasks (runConnection 0 None Sequencer (1 / 2) startedMock) = [Sleeping 0 2250 Sequencer]
   \<and> status (connections (runConnection 0 None Sequencer (1 / 2) startedMock) ! nat 0) = Connecting
   \<and> fallbackDelay (1 / 2) = 2250
   \<and> step (Fire 0 (1 / 2)) (mount pMock (1 / 2)) = Inl NotEnabled
   \<and> exec [Advance 2250, Fire 0 (1 / 2)] (mount pMock (1 / 2)) = Inr doneMock
   \<and> map status (connections doneMock) = [Success]"
proof -
  have h1: "\<not> connectPlatform (props startedMock)"
    and h3: "(0::int) < int (length (connections startedMock))"
    and h4: "platformId (connections startedMock ! nat 0) = ''A''"
    by (simp_all add: startedMock_def useConnectionStatus_def pMock_def)
  have h4': "platformId (connections startedMock ! nat 0) \<noteq> []"
    unfolding h4 by simp
  have h5: "(0::real) \<le> 1 / 2" and h6: "(1 / 2::real) < 1"
    by simp_all
  note inst = fallback_attempt_terminates [OF h1 order_refl h3 h4' h5 h6, of None Sequencer]
  note d = fallbackDelay_half
  have c0: "clock startedMock = 0" and t0: "tasks startedMock = []"
    by (simp_all add: startedMock_def useConnectionStatus_def)
  have a: "tasks (runConnection 0 None Sequencer (1 / 2) startedMock) = [Sleeping 0 2250 Sequencer]"
    using inst [THEN conjunct1] by (simp add: d c0 t0)
  have b: "status (connections (runConnection 0 None Sequencer (1 / 2) startedMock) ! nat 0) = Connecting"
    using inst [THEN conjunct2, THEN conjunct1] .
  have m: "runConnection 0 None Sequencer (1 / 2) startedMock = mount pMock (1 / 2)"
    by (simp add: model_defs startedMock_def pMock_def)
  have e: "step (Fire 0 (1 / 2)) (mount pMock (1 / 2)) = Inl NotEnabled"
    by (simp add: model_defs pMock_def d)
  have f: "exec [Advance 2250, Fire 0 (1 / 2)] (mount pMock (1 / 2)) = Inr doneMock"
    by (simp add: model_defs pMock_def doneMock_def d fallbackSuccess_half)
  have g: "map status (connections doneMock) = [Success]"
    by (simp add: doneMock_def)
  show ?thesis
    using h1 h3 h4 h5 h6 m a b d e f g by (intro conjI) assumption+
qed

subsection \<open>Renders with other props\<close>

lemma tasks_prefix_resume: "\<exists>ts. tasks (resume who i s) = tasks s @ ts"
  by (cases who) (simp_all add: moveToNext_def)

lemma tasks_prefix_runConnection:
  "\<exists>ts. tasks (runConnection index credentials who u s) = tasks s @ ts"
  using tasks_prefix_resume [of who index s]
  by (simp add: runConnection_def Let_def setConnections_fields split: option.splits)

lemma tasks_prefix_autoStartEffect: "\<exists>ts. tasks (autoStartEffect u s) = tasks s @ ts"
  using tasks_prefix_runConnection [of 0 None Sequencer u "s\<lparr>currentIndex := 0\<rparr>"]
  by (simp add: autoStartEffect_def setCurrentIndex_def sequencerEffect_def)

lemma tasks_prefix_rerender: "\<exists>ts. tasks (rerender p u s) = tasks s @ ts"
  using tasks_prefix_autoStartEffect [of u "s\<lparr>props := p\<rparr>"]
  by (simp add: rerender_def)

lemma taskAt_rerender:
  assumes "taskAt s n = Some t"
  shows "taskAt (rerender p u s) n = Some t"
proof -
  obtain ts where "tasks (rerender p u s) = tasks s @ ts"
    using tasks_prefix_rerender by blast
  with assms show ?thesis
    by (simp add: taskAt_def nth_append split: if_splits)
qed

lemma clock_rerender: "clock (rerender p u s) = clock s"
  by (simp add: rerender_def autoStartEffect_def setCurrentIndex_def sequencerEffect_def
      runConnection_fields)

lemma length_connections_rerender: "length (connections (rerender p u s)) = length (connections s)"
  using arg_cong [OF ids_rerender [of p u s], of length] by (simp add: ledgerIds_def)

lemma currentIndex_setCurrentIndex: "currentIndex (setCurrentIndex k u s) = k"
  by (simp add: setCurrentIndex_def sequencerEffect_def runConnection_fields)

text \<open>What the pending tasks of a hook do when they run after a render with other props.\<close>

lemma settle_after_rerender:
  assumes "taskAt s n = Some (Awaiting index pid credentials who)"
    and "0 \<le> index" and "index < int (length (connections s))"
  shows "\<exists>s2. step (Settle n out) (rerender p u s) = Inr s2
             \<and> status (connections s2 ! nat index) =
                 (case out of Resolves r \<Rightarrow> statusOf r | Rejects \<Rightarrow> Error)
             \<and> map platformId (connections s2) = map platformId (connections s)"
proof -
  let ?s1 = "rerender p u s"
  let ?r = "case out of Resolves r \<Rightarrow> statusOf r | Rejects \<Rightarrow> Error"
  let ?s2 = "resume who index (setConnections index ?r (dropTask n ?s1))"
  have t1: "taskAt ?s1 n = Some (Awaiting index pid credentials who)"
    using assms(1) by (rule taskAt_rerender)
  then have st: "step (Settle n out) ?s1 = Inr ?s2"
    by (simp add: connectSettled_Inr)
  have "nat index < length (connections ?s1)" and "int (nat index) = index"
    using assms(2,3) by (simp_all add: length_connections_rerender)
  then have w: "status (connections ?s2 ! nat index) = ?r"
    by (simp add: resume_fields setConnections_fields dropTask_fields nth_setStatus)
  have "ledgerIds ?s2 = ledgerIds s"
    by (simp add: ids_resume ids_setConnections ids_dropTask ids_rerender)
  then have i: "map platformId (connections ?s2) = map platformId (connections s)"
    by (simp add: ledgerIds_def)
  show ?thesis
    using st w i by blast
qed

lemma sleeping_after_rerender:
  assumes "taskAt s m = Some (Sleeping index due who)" and "due \<le> clock s"
    and "0 \<le> index" and "index < int (length (connections s))"
  shows "\<exists>s2. step (Fire m v) (rerender p u s) = Inr s2
             \<and> status (connections s2 ! nat index) = (if fallbackSuccess v then Success else Error)"
proof -
  let ?s1 = "rerender p u s"
  have t1: "taskAt ?s1 m = Some (Sleeping index due who)"
    using assms(1) by (rule taskAt_rerender)
  have i: "index < int (length (connections ?s1))"
    using assms(4) by (simp add: length_connections_rerender)
  have "due \<le> clock ?s1"
    using assms(2) by (simp add: clock_rerender)
  with fire_sleeping(2) [OF t1 assms(3) i, of v] show ?thesis
    by blast
qed

lemma advance_after_rerender:
  assumes "taskAt s m = Some (AdvanceTimer k due)" and "due \<le> clock s"
  shows "\<exists>s2. step (Fire m v) (rerender p u s) = Inr s2 \<and> currentIndex s2 = k"
proof -
  let ?s1 = "rerender p u s"
  have "taskAt ?s1 m = Some (AdvanceTimer k due)"
    using assms(1) by (rule taskAt_rerender)
  with assms(2) have "step (Fire m v) ?s1 = Inr (setCurrentIndex k v (dropTask m ?s1))"
    by (simp add: dropTask_fields clock_rerender)
  then show ?thesis
    by (simp add: currentIndex_setCurrentIndex)
qed

lemma complete_after_rerender:
  assumes "taskAt s m = Some (CompleteTimer due)" and "due \<le> clock s"
  shows "\<exists>s2. step (Fire m v) (rerender p u s) = Inr s2 \<and> allComplete s2"
proof -
  let ?s1 = "rerender p u s"
  have "taskAt ?s1 m = Some (CompleteTimer due)"
    using assms(1) by (rule taskAt_rerender)
  with assms(2) have "step (Fire m v) ?s1 = Inr (setAllComplete True (dropTask m ?s1))"
    by (simp add: dropTask_fields clock_rerender)
  then show ?thesis
    by (simp add: setAllComplete_def)
qed

subsection \<open>Discarded hooks\<close>

lemma cells_resume: "ledgerCells (resume who i s) = ledgerCells s"
  by (simp add: ledgerCells_def resume_fields)

lemma cells_dropTask: "ledgerCells (dropTask n s) = ledgerCells s"
  by (simp add: ledgerCells_def dropTask_fields)

lemma cells_tick: "ledgerCells (tick d s) = ledgerCells s"
  by (simp add: ledgerCells_def tick_def)

lemma cells_lateRunConnection:
  "ledgerCells (lateRunConnection index credentials who u s) = ledgerCells s"
  by (simp add: lateRunConnection_def cells_resume split: option.splits)
     (simp add: ledgerCells_def)

lemma cells_lateSettleTask: "lateSettleTask t s = Inr s' \<Longrightarrow> ledgerCells s' = ledgerCells s"
  by (cases t) (auto simp: cells_resume)

lemma cells_lateFireTask: "lateFireTask t s = Inr s' \<Longrightarrow> ledgerCells s' = ledgerCells s"
  by (cases t) (auto simp: cells_resume split: if_splits)

lemma cells_lateStep:
  assumes "lateStep e s = Inr s'"
  shows "ledgerCells s' = ledgerCells s"
proof (cases e)
  case (Retry index credentials u)
  with assms show ?thesis
    by (auto simp: cells_lateRunConnection)
next
  case (Settle n out)
  with assms obtain t where "lateSettleTask t (dropTask n s) = Inr s'"
    by (auto split: option.splits)
  then show ?thesis
    by (auto dest: cells_lateSettleTask simp: cells_dropTask)
next
  case (Fire n u)
  with assms obtain t where "lateFireTask t (dropTask n s) = Inr s'"
    by (auto split: option.splits)
  then show ?thesis
    by (auto dest: cells_lateFireTask simp: cells_dropTask)
next
  case (Advance d)
  with assms have "s' = s\<lparr>clock := clock s + d\<rparr>"
    by (simp split: if_splits)
  then show ?thesis
    by (simp add: ledgerCells_def)
next
  case (Rerender p u)
  with assms show ?thesis
    by simp
qed

text \<open>The callbacks of a discarded hook do run.\<close>

lemma late_settle_runs:
  assumes "taskAt s n = Some (Awaiting index pid credentials who)"
  shows "\<exists>s2. lateStep (Settle n out) s = Inr s2 \<and> ledgerCells s2 = ledgerCells s"
  using assms by (simp add: cells_resume cells_dropTask)

lemma late_fire_runs:
  assumes "taskAt s m = Some t" and "dueAt t = Some due" and "due \<le> clock s"
  shows "\<exists>s2. lateStep (Fire m v) s = Inr s2 \<and> ledgerCells s2 = ledgerCells s"
  using assms by (cases t) (simp_all add: cells_resume cells_dropTask dropTask_fields)

text \<open>Whatever happens, the cells of a discarded hook are never written again.\<close>

lemma discarded_worldStep:
  assumes "worldStep ev w = Inr w'"
  shows "length (discarded w) \<le> length (discarded w')
       \<and> (\<forall>j<length (discarded w). ledgerCells (discarded w' ! j) = ledgerCells (discarded w ! j))"
proof (cases ev)
  case (Live e)
  with assms obtain s' where "w' = w\<lparr>current := Some s'\<rparr>"
    by (auto split: option.splits if_splits sum.splits)
  then show ?thesis
    by simp
next
  case (Late i e)
  with assms obtain s' where i: "i < length (discarded w)"
    and l: "lateStep e (discarded w ! i) = Inr s'"
    and w': "w' = w\<lparr>discarded := (discarded w)[i := s']\<rparr>"
    by (auto split: if_splits sum.splits)
  from l have "ledgerCells s' = ledgerCells (discarded w ! i)"
    by (rule cells_lateStep)
  with i show ?thesis
    by (auto simp: w' nth_list_update)
next
  case (Pass d)
  with assms have "w' = \<lparr>current = map_option (tick d) (current w), discarded = map (tick d) (discarded w)\<rparr>"
    by (simp split: if_splits)
  then show ?thesis
    by (simp add: cells_tick)
next
  case Discard
  with assms obtain s where "w' = \<lparr>current = None, discarded = discarded w @ [s]\<rparr>"
    by (auto split: option.splits)
  then show ?thesis
    by (simp add: nth_append)
next
  case (Replace p u)
  with assms have "discarded w' = discarded w @ (case current w of None \<Rightarrow> [] | Some s \<Rightarrow> [s])"
    by auto
  then show ?thesis
    by (simp add: nth_append)
qed

lemma discarded_worldExec:
  assumes "worldExec evs w = Inr w'"
  shows "length (discarded w) \<le> length (discarded w')
       \<and> (\<forall>j<length (discarded w). ledgerCells (discarded w' ! j) = ledgerCells (discarded w ! j))"
  using assms
proof (induction evs arbitrary: w)
  case Nil
  then show ?case by simp
next
  case (Cons ev evs)
  then obtain w1 where w1: "worldStep ev w = Inr w1" "worldExec evs w1 = Inr w'"
    by (auto split: sum.splits)
  note a = discarded_worldStep [OF w1(1)]
  note b = Cons.IH [OF w1(2)]
  show ?case
  proof (intro conjI allI impI)
    show "length (discarded w) \<le> length (discarded w')"
      using a b by linarith
    fix j assume j: "j < length (discarded w)"
    with a have "j < length (discarded w1)"
      by linarith
    with b have "ledgerCells (discarded w' ! j) = ledgerCells (discarded w1 ! j)"
      by blast
    with a j show "ledgerCells (discarded w' ! j) = ledgerCells (discarded w ! j)"
      by simp
  qed
qed

lemma late_keeps_current:
  assumes "worldStep (Late i e) w = Inr w'"
  shows "current w' = current w"
  using assms by (auto split: if_splits sum.splits)

text \<open>
  A hook is mounted for \<open>[A, B]\<close> and its first attempt is in flight when the parent
  renders it for \<open>[C, D]\<close>. The ledger is still the one of \<open>[A, B]\<close>, and when the
  connector call of the earlier run resolves, its outcome is written into that ledger
  and the sequencer goes on.
\<close>

theorem late_write_counterexample:
  "tasks (mount pAB 0) = [Awaiting 0 ''A'' None Sequencer]
   \<and> map status (connections (mount pAB 0)) = [Connecting, Pending]
   \<and> exec [Rerender pCD 0, Settle 0 (Resolves ResultSuccess)] (mount pAB 0) = Inr replacedAB
   \<and> props replacedAB = pCD
   \<and> connections replacedAB =
        [\<lparr>platformId = ''A'', status = Success\<rparr>, \<lparr>platformId = ''B'', status = Pending\<rparr>]"
  by (simp add: model_defs pAB_def pCD_def replacedAB_def)

text \<open>
  C8 (amended). The hook has no notion of a run and guards no deferred write; what a late
  callback does depends on how the session was replaced.

  \<^bold>\<open>Replaced by a render with other props\<close> (platform ids, \<^verbatim>\<open>autoStart\<close>, connector): the
  hook keeps its one ledger, which is not rebuilt, and nothing is cancelled: every task
  pending before the render is pending after it, at the same place. A connector call in
  flight at the render still writes its outcome into the record at its index when it
  settles; a fallback timer still writes its outcome; a timer of the sequencer still
  moves the cursor; a completion timer still sets \<open>allComplete\<close>. Each of these holds
  for the task alone, whatever else is pending.

  \<^bold>\<open>Discarded, or replaced by a new instance\<close>: nothing is cancelled either, and the
  callbacks of the discarded instance still run, but the framework drops their writes:
  in every run of the world, the ledger, the cursor, \<open>allComplete\<close> and the history of
  writes of a discarded instance stay what they were when it was discarded. A new instance
  starts from its own fresh ledger, and no event of a discarded instance changes it.
\<close>

theorem deferred_writes_unguarded:
  "(\<forall>s p u. map platformId (connections (rerender p u s)) = map platformId (connections s)
        \<and> (\<forall>m t. taskAt s m = Some t \<longrightarrow> taskAt (rerender p u s) m = Some t))
   \<and> (\<forall>s n index pid credentials who out p u.
         taskAt s n = Some (Awaiting index pid credentials who)
         \<and> 0 \<le> index \<and> index < int (length (connections s)) \<longrightarrow>
         (\<exists>s2. step (Settle n out) (rerender p u s) = Inr s2
            \<and> status (connections s2 ! nat index) =
                (case out of Resolves r \<Rightarrow> statusOf r | Rejects \<Rightarrow> Error)
            \<and> map platformId (connections s2) = map platformId (connections s)))
   \<and> (\<forall>s m index due who v p u.
         taskAt s m = Some (Sleeping index due who) \<and> due \<le> clock s
         \<and> 0 \<le> index \<and> index < int (length (connections s)) \<longrightarrow>
         (\<exists>s2. step (Fire m v) (rerender p u s) = Inr s2
            \<and> status (connections s2 ! nat index) =
                (if fallbackSuccess v then Success else Error)))
   \<and> (\<forall>s m k due v p u.
         taskAt s m = Some (AdvanceTimer k due) \<and> due \<le> clock s \<longrightarrow>
         (\<exists>s2. step (Fire m v) (rerender p u s) = Inr s2 \<and> currentIndex s2 = k))
   \<and> (\<forall>s m due v p u.
         taskAt s m = Some (CompleteTimer due) \<and> due \<le> clock s \<longrightarrow>
         (\<exists>s2. step (Fire m v) (rerender p u s) = Inr s2 \<and> allComplete s2))
   \<and> (\<forall>w s. current w = Some s \<longrightarrow>
         worldStep Discard w = Inr \<lparr>current = None, discarded = discarded w @ [s]\<rparr>)
   \<and> (\<forall>w p u. worldStep (Replace p u) w =
         Inr \<lparr>current = Some (mount p u),
             discarded = discarded w @ (case current w of None \<Rightarrow> [] | Some s \<Rightarrow> [s])\<rparr>)
   \<and> (\<forall>s n index pid credentials who out.
         taskAt s n = Some (Awaiting index pid credentials who) \<longrightarrow>
         (\<exists>s2. lateStep (Settle n out) s = Inr s2 \<and> ledgerCells s2 = ledgerCells s))
   \<and> (\<forall>s m t due v.
         taskAt s m = Some t \<and> dueAt t = Some due \<and> due \<le> clock s \<longrightarrow>
         (\<exists>s2. lateStep (Fire m v) s = Inr s2 \<and> ledgerCells s2 = ledgerCells s))
   \<and> (\<forall>e s s2. lateStep e s = Inr s2 \<longrightarrow> ledgerCells s2 = ledgerCells s)
   \<and> (\<forall>i e w w2. worldStep (Late i e) w = Inr w2 \<longrightarrow> current w2 = current w)
   \<and> (\<forall>evs w w2. worldExec evs w = Inr w2 \<longrightarrow>
         length (discarded w) \<le> length (discarded w2)
         \<and> (\<forall>j<length (discarded w).
               ledgerCells (discarded w2 ! j) = ledgerCells (discarded w ! j)))"
proof -
  have a: "\<forall>s p u. map platformId (connections (rerender p u s)) = map platformId (connections s)
        \<and> (\<forall>m t. taskAt s m = Some t \<longrightarrow> taskAt (rerender p u s) m = Some t)"
  proof (intro allI conjI impI)
    fix s p u
    show "map platformId (connections (rerender p u s)) = map platformId (connections s)"
      using ids_rerender [of p u s] by (simp add: ledgerIds_def)
  next
    fix s p u m t
    assume "taskAt s m = Some t"
    then show "taskAt (rerender p u s) m = Some t"
      by (rule taskAt_rerender)
  qed
  have b: "\<forall>s n index pid credentials who out p u.
         taskAt s n = Some (Awaiting index pid credentials who)
         \<and> 0 \<le> index \<and> index < int (length (connections s)) \<longrightarrow>
         (\<exists>s2. step (Settle n out) (rerender p u s) = Inr s2
            \<and> status (connections s2 ! nat index) =
                (case out of Resolves r \<Rightarrow> statusOf r | Rejects \<Rightarrow> Error)
            \<and> map platformId (connections s2) = map platformId (connections s))"
    using settle_after_rerender by blast
  have c: "\<forall>s m index due who v p u.
         taskAt s m = Some (Sleeping index due who) \<and> due \<le> clock s
         \<and> 0 \<le> index \<and> index < int (length (connections s)) \<longrightarrow>
         (\<exists>s2. step (Fire m v) (rerender p u s) = Inr s2
            \<and> status (connections s2 ! nat index) =
                (if fallbackSuccess v then Success else Error))"
    using sleeping_after_rerender by blast
  have d: "\<forall>s m k due v p u.
         taskAt s m = Some (AdvanceTimer k due) \<and> due \<le> clock s \<longrightarrow>
         (\<exists>s2. step (Fire m v) (rerender p u s) = Inr s2 \<and> currentIndex s2 = k)"
    using advance_after_rerender by blast
  have e: "\<forall>s m due v p u.
         taskAt s m = Some (CompleteTimer due) \<and> due \<le> clock s \<longrightarrow>
         (\<exists>s2. step (Fire m v) (rerender p u s) = Inr s2 \<and> allComplete s2)"
    using complete_after_rerender by blast
  have f: "\<forall>w s. current w = Some s \<longrightarrow>
         worldStep Discard w = Inr \<lparr>current = None, discarded = discarded w @ [s]\<rparr>"
    by simp
  have g: "\<forall>w p u. worldStep (Replace p u) w =
         Inr \<lparr>current = Some (mount p u),
             discarded = discarded w @ (case current w of None \<Rightarrow> [] | Some s \<Rightarrow> [s])\<rparr>"
    by simp
  have h: "\<forall>s n index pid credentials who out.
         taskAt s n = Some (Awaiting index pid credentials who) \<longrightarrow>
         (\<exists>s2. lateStep (Settle n out) s = Inr s2 \<and> ledgerCells s2 = ledgerCells s)"
    using late_settle_runs by blast
  have i: "\<forall>s m t due v.
         taskAt s m = Some t \<and> dueAt t = Some due \<and> due \<le> clock s \<longrightarrow>
         (\<exists>s2. lateStep (Fire m v) s = Inr s2 \<and> ledgerCells s2 = ledgerCells s)"
    using late_fire_runs by blast
  have j: "\<forall>e s s2. lateStep e s = Inr s2 \<longrightarrow> ledgerCells s2 = ledgerCells s"
    using cells_lateStep by blast
  have k: "\<forall>i e w w2. worldStep (Late i e) w = Inr w2 \<longrightarrow> current w2 = current w"
    using late_keeps_current by blast
  have l: "\<forall>evs w w2. worldExec evs w = Inr w2 \<longrightarrow>
         length (discarded w) \<le> length (discarded w2)
         \<and> (\<forall>j<length (discarded w).
               ledgerCells (discarded w2 ! j) = ledgerCells (discarded w ! j))"
    using discarded_worldExec by blast
  show ?thesis
    using a b c d e f g h i j k l by (intro conjI) assumption+
qed

theorem deferred_writes_unguarded_witness:
  "taskAt (mount pAB 0) 0 = Some (Awaiting 0 ''A'' None Sequencer)
   \<and> (0::int) < int (length (connections (mount pAB 0)))
   \<and> map platformId (connections (rerender pCD 0 (mount pAB 0))) = [''A'', ''B'']
   \<and> taskAt (rerender pCD 0 (mount pAB 0)) 0 = Some (Awaiting 0 ''A'' None Sequencer)
   \<and> (\<exists>s2. step (Settle 0 (Resolves ResultSuccess)) (rerender pCD 0 (mount pAB 0)) = Inr s2
          \<and> status (connections s2 ! nat 0) = Success
          \<and> map platformId (connections s2) = [''A'', ''B''])
   \<and> exec [Settle 0 (Resolves ResultSuccess), Advance 500, Fire 0 0,
            Settle 0 (Resolves ResultSuccess), Advance 500] (mount pAB 0) = Inr timerAB
   \<and> taskAt timerAB 0 = Some (CompleteTimer 1000) \<and> 1000 \<le> clock timerAB
   \<and> \<not> allComplete timerAB
   \<and> (\<exists>s2. step (Fire 0 0) (rerender pCD 0 timerAB) = Inr s2 \<and> allComplete s2)
   \<and> worldStep (Replace pCD 0) mountedAB = Inr supersededAB
   \<and> worldExec [Pass 100, Late 0 (Settle 0 (Resolves ResultSuccess)), Pass 500, Late 0 (Fire 0 0)]
        supersededAB = Inr lateAB
   \<and> ledgerCells (discarded lateAB ! 0) = ledgerCells (mount pAB 0)
   \<and> map status (connections (discarded lateAB ! 0)) = [Connecting, Pending]
   \<and> map_option ledgerCells (current lateAB) = Some (ledgerCells (mount pCD 0))"
proof -
  have h1: "taskAt (mount pAB 0) 0 = Some (Awaiting 0 ''A'' None Sequencer)"
    and h3: "(0::int) < int (length (connections (mount pAB 0)))"
    and ids: "map platformId (connections (mount pAB 0)) = [''A'', ''B'']"
    by (simp_all add: model_defs pAB_def)
  note inst = deferred_writes_unguarded
  have a: "map platformId (connections (rerender pCD 0 (mount pAB 0))) = [''A'', ''B'']"
    using inst [THEN conjunct1, rule_format, THEN conjunct1, of pCD 0 "mount pAB 0"]
    by (simp only: ids)
  have b: "taskAt (rerender pCD 0 (mount pAB 0)) 0 = Some (Awaiting 0 ''A'' None Sequencer)"
    using inst [THEN conjunct1, rule_format, THEN conjunct2, rule_format, OF h1] .
  have c: "\<exists>s2. step (Settle 0 (Resolves ResultSuccess)) (rerender pCD 0 (mount pAB 0)) = Inr s2
          \<and> status (connections s2 ! nat 0) = Success
          \<and> map platformId (connections s2) = [''A'', ''B'']"
    using inst [THEN conjunct2, THEN conjunct1, rule_format,
        of "mount pAB 0" 0 0 "''A''" None Sequencer "Resolves ResultSuccess" pCD 0] h1 h3
    by (simp add: ids)
  have r: "exec [Settle 0 (Resolves ResultSuccess), Advance 500, Fire 0 0,
            Settle 0 (Resolves ResultSuccess), Advance 500] (mount pAB 0) = Inr timerAB"
    by (simp add: model_defs pAB_def timerAB_def)
  have t1: "taskAt timerAB 0 = Some (CompleteTimer 1000)" and t2: "1000 \<le> clock timerAB"
    and t3: "\<not> allComplete timerAB"
    by (simp_all add: timerAB_def taskAt_def)
  have d: "\<exists>s2. step (Fire 0 0) (rerender pCD 0 timerAB) = Inr s2 \<and> allComplete s2"
    using inst [THEN conjunct2, THEN conjunct2, THEN conjunct2, THEN conjunct2, THEN conjunct1,
        rule_format, of timerAB 0 1000 0 pCD 0] t1 t2
    by simp
  have w1: "worldStep (Replace pCD 0) mountedAB = Inr supersededAB"
    by (simp add: mountedAB_def supersededAB_def)
  have w2: "worldExec [Pass 100, Late 0 (Settle 0 (Resolves ResultSuccess)), Pass 500,
                       Late 0 (Fire 0 0)] supersededAB = Inr lateAB"
    by (simp add: supersededAB_def lateAB_def tick_def model_defs pAB_def pCD_def)
  have len: "0 < length (discarded supersededAB)"
    and d0: "discarded supersededAB ! 0 = mount pAB 0"
    by (simp_all add: supersededAB_def)
  have e: "ledgerCells (discarded lateAB ! 0) = ledgerCells (mount pAB 0)"
    using inst [THEN conjunct2, THEN conjunct2, THEN conjunct2, THEN conjunct2, THEN conjunct2,
        THEN conjunct2, THEN conjunct2, THEN conjunct2, THEN conjunct2, THEN conjunct2,
        THEN conjunct2, rule_format, OF w2, THEN conjunct2, rule_format, OF len]
    by (simp only: d0)
  have f: "map status (connections (discarded lateAB ! 0)) = [Connecting, Pending]"
    by (simp add: lateAB_def)
  have g: "map_option ledgerCells (current lateAB) = Some (ledgerCells (mount pCD 0))"
    by (simp add: lateAB_def ledgerCells_def model_defs pCD_def)
  show ?thesis
    using h1 h3 a b c r t1 t2 t3 d w1 w2 e f g by (intro conjI) assumption+
qed

end
